theory Spec2Isabelle
  imports Complex_Main "HOL-Library.Multiset"
begin

section \<open>Numbers, positions and errors\<close>

text \<open>
  The simulation of \<^verbatim>\<open>poc/simple_vanet.py\<close> computes with Python floats (and numpy's
  \<^verbatim>\<open>float64\<close>). They are embedded as exact reals: \<open>sqrt\<close>, \<open>cos\<close>, \<open>sin\<close>
  and \<open>pi\<close> are the mathematical ones, so no statement below says anything about
  rounding. Object references become handles: a station is the index of its object in
  \<^verbatim>\<open>model.vec_stations\<close>, a vehicle is the index of its object in the arena of all
  vehicle objects, in creation order. Python's \<^verbatim>\<open>x != self\<close> on agents is object identity,
  hence inequality of handles.
\<close>

type_synonym position = "real \<times> real"

datatype error =
    ValueError string
  | IndexError
  | TypeError
  | OutOfBounds

subsection \<open>\<^verbatim>\<open>distance\<close> and \<^verbatim>\<open>is_moving_towards\<close>\<close>

definition distance :: "position \<Rightarrow> position \<Rightarrow> real" where
  "distance pos1 pos2 =
     (case pos1 of (x1, y1) \<Rightarrow> case pos2 of (x2, y2) \<Rightarrow>
        sqrt ((x1 - x2)\<^sup>2 + (y1 - y2)\<^sup>2))"

text \<open>\<^verbatim>\<open>math.radians\<close>.\<close>

definition radians :: "real \<Rightarrow> real" where
  "radians d = d * pi / 180"

definition is_moving_towards :: "position \<Rightarrow> real \<Rightarrow> position \<Rightarrow> bool" where
  "is_moving_towards vehicle_pos vehicle_orientation station_pos =
     (let rad = radians vehicle_orientation;
          vehicle_dir = (cos rad, sin rad);
          to_station_vec = (fst station_pos - fst vehicle_pos, snd station_pos - snd vehicle_pos);
          dot_product = fst vehicle_dir * fst to_station_vec + snd vehicle_dir * snd to_station_vec
      in dot_product > 0)"

section \<open>Traces and vehicles\<close>

text \<open>
  \<^verbatim>\<open>VanetTraceLoader\<close> is not part of the sources at hand; a trace is taken as a
  parameter. \<^verbatim>\<open>VehicleTrace\<close> has the fields \<^verbatim>\<open>first_ts\<close>, \<^verbatim>\<open>last_ts\<close> and
  \<^verbatim>\<open>trace\<close>, a data frame whose rows carry \<^verbatim>\<open>timestep_time\<close>, \<^verbatim>\<open>vehicle_x\<close>,
  \<^verbatim>\<open>vehicle_y\<close> and \<^verbatim>\<open>vehicle_angle\<close>. The data frame is the list \<open>trace_df\<close> of
  its rows, and \<^verbatim>\<open>.iloc[i]\<close> with a non-negative \<open>i\<close> raises \<^verbatim>\<open>IndexError\<close>
  past the last row.
\<close>

record sample =
  timestep_time :: int
  vehicle_x :: real
  vehicle_y :: real
  vehicle_angle :: real

record vehicle_trace =
  first_ts :: int
  last_ts :: int
  trace_df :: "sample list"

definition iloc :: "sample list \<Rightarrow> nat \<Rightarrow> error + sample" where
  "iloc df i = (if i < length df then Inr (df ! i) else Inl IndexError)"

text \<open>
  \<^verbatim>\<open>VehicleAgent\<close>. \<open>pos\<close> is \<open>None\<close> until the space places the agent, as in
  \<^verbatim>\<open>mesa.Agent\<close>; \<open>station\<close> is the handle of the serving station.
\<close>

record vehicle_agent =
  unique_id :: nat
  ts :: nat
  trace_i :: nat
  trace :: vehicle_trace
  active :: bool
  angle :: real
  station :: "nat option"
  pos :: "position option"

text \<open>
  \<^verbatim>\<open>ContinuousSpace(width, height, False)\<close> of the mesa library: \<^verbatim>\<open>place_agent\<close> and
  \<^verbatim>\<open>move_agent\<close> raise when the point is out of bounds (the space is not a torus; a
  point is inside when \<open>0 \<le> x < x_max\<close> and \<open>0 \<le> y < y_max\<close>), and set the
  agent's \<^verbatim>\<open>pos\<close> otherwise. The library is not part of the sources at hand; what it
  does when an agent is moved that was never placed differs between its versions and is
  taken to be a plain move.
\<close>

record continuous_space =
  x_max :: real
  y_max :: real

definition out_of_bounds :: "continuous_space \<Rightarrow> position \<Rightarrow> bool" where
  "out_of_bounds sp p =
     (case p of (x, y) \<Rightarrow> x < 0 \<or> x \<ge> x_max sp \<or> y < 0 \<or> y \<ge> y_max sp)"

definition place_agent :: "continuous_space \<Rightarrow> vehicle_agent \<Rightarrow> position \<Rightarrow> error + vehicle_agent" where
  "place_agent sp a p = (if out_of_bounds sp p then Inl OutOfBounds else Inr (a\<lparr>pos := Some p\<rparr>))"

definition move_agent :: "continuous_space \<Rightarrow> vehicle_agent \<Rightarrow> position \<Rightarrow> error + vehicle_agent" where
  "move_agent sp a p = (if out_of_bounds sp p then Inl OutOfBounds else Inr (a\<lparr>pos := Some p\<rparr>))"

definition TIME_STEP_MS :: real where
  "TIME_STEP_MS = 500"

definition TIME_STEP_S :: real where
  "TIME_STEP_S = TIME_STEP_MS / 1000"

definition do_step :: "continuous_space \<Rightarrow> vehicle_agent \<Rightarrow> int \<Rightarrow> error + vehicle_agent" where
  "do_step sp self t =
     (let self1 = self\<lparr>active := True\<rparr> in
      case iloc (trace_df (trace self1)) (trace_i self1) of
        Inl e \<Rightarrow> Inl e
      | Inr state \<Rightarrow>
          if timestep_time state \<noteq> t \<and> timestep_time state \<noteq> t - 1
          then Inl (ValueError ''Time step mismatch'')
          else if timestep_time state = t then Inr self1
          else
            let self2 = self1\<lparr>trace_i := trace_i self1 + 1\<rparr> in
            (case iloc (trace_df (trace self2)) (trace_i self2) of
               Inl e \<Rightarrow> Inl e
             | Inr state2 \<Rightarrow>
                 if timestep_time state2 > t
                 then Inl (ValueError ''Time step jumped to the future'')
                 else if timestep_time state2 < t
                 then Inl (ValueError ''Time step still in the past'')
                 else
                   let self3 = self2\<lparr>pos := Some (vehicle_x state2, vehicle_y state2),
                                      angle := vehicle_angle state2\<rparr>
                   in move_agent sp self3 (vehicle_x state2, vehicle_y state2)))"

text \<open>
  \<^verbatim>\<open>VehicleAgent.step\<close>; \<^verbatim>\<open>int(self.ts * TIME_STEP_S)\<close> truncates a non-negative
  float, which is its floor.
\<close>

definition external_time :: "nat \<Rightarrow> int" where
  "external_time n = \<lfloor>real n * TIME_STEP_S\<rfloor>"

definition vehicle_step :: "continuous_space \<Rightarrow> vehicle_agent \<Rightarrow> error + vehicle_agent" where
  "vehicle_step sp self =
     (let self1 = self\<lparr>ts := ts self + 1\<rparr>;
          external_ts = external_time (ts self1)
      in case (if first_ts (trace self1) \<le> external_ts \<and> external_ts \<le> last_ts (trace self1)
               then do_step sp self1 external_ts else Inr self1) of
           Inl e \<Rightarrow> Inl e
         | Inr self2 \<Rightarrow>
             Inr (if external_ts > last_ts (trace self2) then self2\<lparr>active := False\<rparr> else self2))"

text \<open>\<^verbatim>\<open>VehicleAgent.__init__\<close>, with the identifier and the trace.\<close>

definition VehicleAgent_init :: "continuous_space \<Rightarrow> nat \<Rightarrow> vehicle_trace \<Rightarrow> error + vehicle_agent" where
  "VehicleAgent_init sp uid tr =
     (let self = \<lparr>unique_id = uid, ts = 0, trace_i = 0, trace = tr, active = False,
                  angle = 0, station = None, pos = None\<rparr>
      in if first_ts tr = 0 then do_step sp self 0 else Inr self)"

section \<open>Stations\<close>

text \<open>
  \<^verbatim>\<open>VECStationAgent\<close>. The field \<^verbatim>\<open>range\<close> is \<open>range_m\<close> here (the constructor's name
  for it), \<^verbatim>\<open>pos\<close> is \<open>station_pos\<close> and \<^verbatim>\<open>unique_id\<close> is \<open>station_id\<close>.
  \<open>neighbors\<close> holds station handles and \<open>vehicles\<close> vehicle handles, both in list order.
\<close>

record vec_station_agent =
  station_id :: nat
  station_pos :: position
  range_m :: real
  capacity :: int
  neighbors :: "nat list"
  vehicles :: "nat list"
  distance_threshold :: real
  load_threshold :: real

definition VECStationAgent_init :: "nat \<Rightarrow> position \<Rightarrow> real \<Rightarrow> int \<Rightarrow> vec_station_agent" where
  "VECStationAgent_init uid position rng cap =
     \<lparr>station_id = uid, station_pos = position, range_m = rng, capacity = cap,
      neighbors = [], vehicles = [], distance_threshold = 0.7, load_threshold = 0.7\<rparr>"

definition load :: "vec_station_agent \<Rightarrow> int" where
  "load s = int (length (vehicles s))"

definition is_vehicle_exiting :: "vec_station_agent \<Rightarrow> vehicle_agent \<Rightarrow> error + bool" where
  "is_vehicle_exiting self vehicle =
     (case pos vehicle of
        None \<Rightarrow> Inl TypeError
      | Some p \<Rightarrow>
          Inr (distance (station_pos self) p > range_m self * distance_threshold self
               \<and> \<not> is_moving_towards p (angle vehicle) (station_pos self)))"

section \<open>The model\<close>

datatype agent_ref = Station nat | Vehicle nat

record vec_model =
  space :: continuous_space
  vec_stations :: "vec_station_agent list"
  vehicle_arena :: "vehicle_agent list"
  schedule :: "agent_ref list"

text \<open>\<^verbatim>\<open>list.remove\<close> removes the first occurrence and raises when there is none.\<close>

definition py_remove :: "nat \<Rightarrow> nat list \<Rightarrow> error + nat list" where
  "py_remove x xs =
     (if x \<in> set xs then Inr (remove1 x xs) else Inl (ValueError ''list.remove(x): x not in list''))"

text \<open>
  The three assignments of an accepted handover (the body of the \<^verbatim>\<open>if\<close> in
  \<^verbatim>\<open>attempt_handover\<close>), in the source's order.
\<close>

definition hand_over :: "vec_model \<Rightarrow> nat \<Rightarrow> nat \<Rightarrow> nat \<Rightarrow> error + vec_model" where
  "hand_over m self vehicle neighbor =
     (case py_remove vehicle (vehicles (vec_stations m ! self)) of
        Inl e \<Rightarrow> Inl e
      | Inr vs \<Rightarrow>
          let st1 = (vec_stations m)[self := (vec_stations m ! self)\<lparr>vehicles := vs\<rparr>];
              st2 = st1[neighbor := (st1 ! neighbor)\<lparr>vehicles := vehicles (st1 ! neighbor) @ [vehicle]\<rparr>];
              va = (vehicle_arena m)[vehicle := (vehicle_arena m ! vehicle)\<lparr>station := Some neighbor\<rparr>]
          in Inr (m\<lparr>vec_stations := st2, vehicle_arena := va\<rparr>))"

text \<open>
  The \<^verbatim>\<open>for ratio, neighbor in sorted_neighbors\<close> loop: the handle of the accepted
  neighbor, or \<open>None\<close> when the loop breaks or runs out.
\<close>

fun scan :: "vec_model \<Rightarrow> position \<Rightarrow> real \<Rightarrow> (real \<times> nat) list \<Rightarrow> nat option" where
  "scan m p a [] = None"
| "scan m p a ((ratio, neighbor) # rest) =
     (if ratio > 1 then None
      else if load (vec_stations m ! neighbor) < capacity (vec_stations m ! neighbor)
              \<and> is_moving_towards p a (station_pos (vec_stations m ! neighbor))
      then Some neighbor
      else scan m p a rest)"

text \<open>
  The candidate list of \<^verbatim>\<open>attempt_handover\<close>, before sorting; the comprehension reads
  \<^verbatim>\<open>vehicle.pos\<close> once for every neighbor other than \<^verbatim>\<open>self\<close>. The quotient is
  the real one, which is the source's for a range other than zero (numpy divides by zero
  to \<^verbatim>\<open>inf\<close> or \<^verbatim>\<open>nan\<close>, HOL to \<open>0\<close>); the constructor gives every station the
  range 45, and statements about other states assume non-zero ranges.
\<close>

definition candidates :: "vec_model \<Rightarrow> nat \<Rightarrow> position \<Rightarrow> (real \<times> nat) list" where
  "candidates m self p =
     map (\<lambda>x. (distance (station_pos (vec_stations m ! x)) p / range_m (vec_stations m ! x), x))
         (filter (\<lambda>x. x \<noteq> self) (neighbors (vec_stations m ! self)))"

definition attempt_handover :: "vec_model \<Rightarrow> nat \<Rightarrow> nat \<Rightarrow> error + vec_model" where
  "attempt_handover m self vehicle =
     (case pos (vehicle_arena m ! vehicle) of
        None \<Rightarrow>
          if filter (\<lambda>x. x \<noteq> self) (neighbors (vec_stations m ! self)) = [] then Inr m
          else Inl TypeError
      | Some p \<Rightarrow>
          let sorted_neighbors = sort_key fst (candidates m self p) in
          (case scan m p (angle (vehicle_arena m ! vehicle)) sorted_neighbors of
             None \<Rightarrow> Inr m
           | Some neighbor \<Rightarrow> hand_over m self vehicle neighbor))"

text \<open>\<^verbatim>\<open>VECStationAgent.step\<close>: the loop runs over a copy of the served list.\<close>

fun station_loop :: "vec_model \<Rightarrow> nat \<Rightarrow> nat list \<Rightarrow> error + vec_model" where
  "station_loop m self [] = Inr m"
| "station_loop m self (vehicle # rest) =
     (case is_vehicle_exiting (vec_stations m ! self) (vehicle_arena m ! vehicle) of
        Inl e \<Rightarrow> Inl e
      | Inr exiting \<Rightarrow>
          if \<not> exiting then station_loop m self rest
          else (case attempt_handover m self vehicle of
                  Inl e \<Rightarrow> Inl e
                | Inr m' \<Rightarrow> station_loop m' self rest))"

definition station_step :: "vec_model \<Rightarrow> nat \<Rightarrow> error + vec_model" where
  "station_step m self = station_loop m self (vehicles (vec_stations m ! self))"

section \<open>Scheduler and model\<close>

text \<open>
  \<^verbatim>\<open>BaseScheduler\<close> of the mesa library keeps the agents in the order of
  \<^verbatim>\<open>schedule.add\<close>, and \<^verbatim>\<open>schedule.step()\<close> calls \<^verbatim>\<open>step()\<close> on each of them in
  that order. An exception raised by an agent ends the tick. The data collector only
  reads the model and is left out.
\<close>

definition agent_step :: "vec_model \<Rightarrow> agent_ref \<Rightarrow> error + vec_model" where
  "agent_step m a =
     (case a of
        Station i \<Rightarrow> station_step m i
      | Vehicle j \<Rightarrow>
          (case vehicle_step (space m) (vehicle_arena m ! j) of
             Inl e \<Rightarrow> Inl e
           | Inr v' \<Rightarrow> Inr (m\<lparr>vehicle_arena := (vehicle_arena m)[j := v']\<rparr>)))"

fun schedule_step :: "vec_model \<Rightarrow> agent_ref list \<Rightarrow> error + vec_model" where
  "schedule_step m [] = Inr m"
| "schedule_step m (a # rest) =
     (case agent_step m a of
        Inl e \<Rightarrow> Inl e
      | Inr m' \<Rightarrow> schedule_step m' rest)"

text \<open>\<^verbatim>\<open>VECModel.step\<close>.\<close>

definition model_step :: "vec_model \<Rightarrow> error + vec_model" where
  "model_step m = schedule_step m (schedule m)"

text \<open>The driver's loop \<^verbatim>\<open>for i in range(n): model.step()\<close>.\<close>

fun run_ticks :: "nat \<Rightarrow> vec_model \<Rightarrow> error + vec_model" where
  "run_ticks 0 m = Inr m"
| "run_ticks (Suc n) m =
     (case model_step m of
        Inl e \<Rightarrow> Inl e
      | Inr m' \<Rightarrow> run_ticks n m')"

subsection \<open>\<^verbatim>\<open>VECModel.__init__\<close>\<close>

definition station_positions :: "real \<Rightarrow> real \<Rightarrow> position list" where
  "station_positions width height =
     (let waypoints_pos_offset = 5;
          waypoints = [(waypoints_pos_offset, waypoints_pos_offset),
                       (width - waypoints_pos_offset, waypoints_pos_offset),
                       (width - waypoints_pos_offset, height - waypoints_pos_offset),
                       (waypoints_pos_offset, height - waypoints_pos_offset)];
          station_pos_offset = 5
      in [(fst (waypoints ! 0) + station_pos_offset, snd (waypoints ! 0) + station_pos_offset),
          (fst (waypoints ! 1) - station_pos_offset, snd (waypoints ! 1) + station_pos_offset),
          (fst (waypoints ! 2) - station_pos_offset, snd (waypoints ! 2) - station_pos_offset),
          (fst (waypoints ! 3) + station_pos_offset, snd (waypoints ! 3) - station_pos_offset)])"

text \<open>
  The loop \<^verbatim>\<open>for i, pos in enumerate(station_positions, start=1)\<close>: the new station
  is appended to \<^verbatim>\<open>vec_stations\<close>, placed in the space and added to the schedule.
\<close>

fun create_stations :: "vec_model \<Rightarrow> nat \<Rightarrow> position list \<Rightarrow> error + vec_model" where
  "create_stations m i [] = Inr m"
| "create_stations m i (p # ps) =
     (let station = VECStationAgent_init (10000 + i) p 45 10;
          handle = length (vec_stations m);
          m1 = m\<lparr>vec_stations := vec_stations m @ [station]\<rparr>
      in if out_of_bounds (space m1) p then Inl OutOfBounds
         else create_stations (m1\<lparr>schedule := schedule m1 @ [Station handle]\<rparr>) (i + 1) ps)"

text \<open>
  The loop \<^verbatim>\<open>for i in range(4)\<close> that wires the ring: station \<open>i\<close> gets the neighbors
  \<open>(i + 1) % 4\<close> and \<open>(i + 3) % 4\<close>, in this order.
\<close>

definition wire_neighbors :: "vec_model \<Rightarrow> vec_model" where
  "wire_neighbors m =
     m\<lparr>vec_stations :=
         foldl (\<lambda>st i. st[i := (st ! i)\<lparr>neighbors := [(i + 1) mod 4, (i + 3) mod 4]\<rparr>])
               (vec_stations m) [0, 1, 2, 3]\<rparr>"

text \<open>
  Python's \<^verbatim>\<open>min(xs, key=f)\<close>: the running minimum is replaced only by a strictly
  smaller key, and an empty sequence raises \<^verbatim>\<open>ValueError\<close>.
\<close>

fun min_loop :: "('a \<Rightarrow> real) \<Rightarrow> 'a \<Rightarrow> 'a list \<Rightarrow> 'a" where
  "min_loop f best [] = best"
| "min_loop f best (x # xs) = min_loop f (if f x < f best then x else best) xs"

definition py_min :: "('a \<Rightarrow> real) \<Rightarrow> 'a list \<Rightarrow> error + 'a" where
  "py_min f xs =
     (case xs of
        [] \<Rightarrow> Inl (ValueError ''min() arg is an empty sequence'')
      | x # rest \<Rightarrow> Inr (min_loop f x rest))"

text \<open>
  \<^verbatim>\<open>spawn_vehicle\<close>. Its \<^verbatim>\<open>pos\<close> is the variable of the enclosing constructor, which
  the station loop left at the last station position; it is the argument \<open>p\<close>. The
  new vehicle's handle is its index in the arena.
\<close>

definition spawn_vehicle :: "vec_model \<Rightarrow> position \<Rightarrow> nat \<Rightarrow> vehicle_trace \<Rightarrow> error + vec_model" where
  "spawn_vehicle m p vehicle_id tr =
     (case VehicleAgent_init (space m) vehicle_id tr of
        Inl e \<Rightarrow> Inl e
      | Inr vehicle0 \<Rightarrow>
          let handle = length (vehicle_arena m);
              sched = schedule m @ [Vehicle handle] in
          (case place_agent (space m) vehicle0 p of
             Inl e \<Rightarrow> Inl e
           | Inr vehicle1 \<Rightarrow>
               (case pos vehicle1 of
                  None \<Rightarrow> Inl TypeError
                | Some vp \<Rightarrow>
                    (case py_min (\<lambda>x. distance (station_pos (vec_stations m ! x)) vp)
                                 [0..<length (vec_stations m)] of
                       Inl e \<Rightarrow> Inl e
                     | Inr st \<Rightarrow>
                         Inr (m\<lparr>vec_stations :=
                                  (vec_stations m)[st := (vec_stations m ! st)
                                     \<lparr>vehicles := vehicles (vec_stations m ! st) @ [handle]\<rparr>],
                                vehicle_arena := vehicle_arena m @ [vehicle1\<lparr>station := Some st\<rparr>],
                                schedule := sched\<rparr>)))))"

fun spawn_all :: "vec_model \<Rightarrow> position \<Rightarrow> nat \<Rightarrow> vehicle_trace list \<Rightarrow> error + vec_model" where
  "spawn_all m p vehicle_id [] = Inr m"
| "spawn_all m p vehicle_id (tr # rest) =
     (case spawn_vehicle m p vehicle_id tr of
        Inl e \<Rightarrow> Inl e
      | Inr m' \<Rightarrow> spawn_all m' p (vehicle_id + 1) rest)"

text \<open>
  The constructor, with the traces of \<^verbatim>\<open>TRACES\<close> in the order of its keys.
\<close>

definition VECModel_init :: "real \<Rightarrow> real \<Rightarrow> vehicle_trace list \<Rightarrow> error + vec_model" where
  "VECModel_init width height traces =
     (let m0 = \<lparr>space = \<lparr>x_max = width, y_max = height\<rparr>, vec_stations = [],
                vehicle_arena = [], schedule = []\<rparr>;
          sps = station_positions width height
      in case create_stations m0 1 sps of
           Inl e \<Rightarrow> Inl e
         | Inr m1 \<Rightarrow> spawn_all (wire_neighbors m1) (last sps) 1 traces)"

section \<open>Properties of model states\<close>

text \<open>
  Handles are valid when they point into the station list and the vehicle arena; Python
  references always do. \<open>served_consistent\<close> is the agreement of the two directions
  of the serving relation: whoever is in a station's served list points back to that
  station.
\<close>

definition handles_ok :: "vec_model \<Rightarrow> bool" where
  "handles_ok m =
     (\<forall>t < length (vec_stations m).
        (\<forall>n \<in> set (neighbors (vec_stations m ! t)). n < length (vec_stations m))
      \<and> (\<forall>v \<in> set (vehicles (vec_stations m ! t)). v < length (vehicle_arena m)))"

definition schedule_ok :: "vec_model \<Rightarrow> bool" where
  "schedule_ok m =
     ((\<forall>i. Station i \<in> set (schedule m) \<longrightarrow> i < length (vec_stations m))
      \<and> (\<forall>j. Vehicle j \<in> set (schedule m) \<longrightarrow> j < length (vehicle_arena m)))"

definition served_consistent :: "vec_model \<Rightarrow> bool" where
  "served_consistent m =
     (\<forall>s < length (vec_stations m). \<forall>v \<in> set (vehicles (vec_stations m ! s)).
        station (vehicle_arena m ! v) = Some s)"

definition served_distinct :: "vec_model \<Rightarrow> bool" where
  "served_distinct m = (\<forall>s < length (vec_stations m). distinct (vehicles (vec_stations m ! s)))"

definition served_cover :: "vec_model \<Rightarrow> bool" where
  "served_cover m =
     (\<forall>v < length (vehicle_arena m). \<exists>s < length (vec_stations m).
        v \<in> set (vehicles (vec_stations m ! s)))"

text \<open>The sum of \<^verbatim>\<open>load\<close> over all stations, and the number of active vehicles.\<close>

definition total_load :: "vec_model \<Rightarrow> int" where
  "total_load m = sum_list (map load (vec_stations m))"

definition active_count :: "vec_model \<Rightarrow> int" where
  "active_count m = int (length (filter active (vehicle_arena m)))"

definition model_inv :: "vec_model \<Rightarrow> bool" where
  "model_inv m =
     (handles_ok m \<and> schedule_ok m \<and> served_consistent m \<and> served_distinct m
      \<and> served_cover m \<and> total_load m = int (length (vehicle_arena m)))"

text \<open>
  The schedule lists every station, in creation order, and then every vehicle, in
  creation order.
\<close>

definition schedule_fifo :: "vec_model \<Rightarrow> bool" where
  "schedule_fifo m =
     (schedule m = map Station [0..<length (vec_stations m)]
                   @ map Vehicle [0..<length (vehicle_arena m)])"

definition ranges_ok :: "vec_model \<Rightarrow> nat \<Rightarrow> bool" where
  "ranges_ok m self = (\<forall>x \<in> set (neighbors (vec_stations m ! self)). range_m (vec_stations m ! x) \<noteq> 0)"

text \<open>A vehicle with its station reference blanked: everything a vehicle step reads or writes.\<close>

definition without_station :: "vehicle_agent \<Rightarrow> vehicle_agent" where
  "without_station v = v\<lparr>station := None\<rparr>"


subsection \<open>The selection rule of a handover, in the words of its description\<close>




section \<open>A concrete ring\<close>

text \<open>
  The four stations that the constructor builds for a world of 200 by 200, with given
  served lists for the third and fourth station, and two traces: one with samples at the
  timesteps 0 and 1, one that starts at timestep 1.
\<close>

definition ring_station :: "nat \<Rightarrow> position \<Rightarrow> nat list \<Rightarrow> nat list \<Rightarrow> vec_station_agent" where
  "ring_station uid p ns vs =
     \<lparr>station_id = uid, station_pos = p, range_m = 45, capacity = 10,
      neighbors = ns, vehicles = vs, distance_threshold = 0.7, load_threshold = 0.7\<rparr>"

definition ring_model :: "nat list \<Rightarrow> nat list \<Rightarrow> vehicle_agent list \<Rightarrow> vec_model" where
  "ring_model vs2 vs3 arena =
     \<lparr>space = \<lparr>x_max = 200, y_max = 200\<rparr>,
      vec_stations = [ring_station 10001 (10, 10) [1, 3] [],
                      ring_station 10002 (190, 10) [2, 0] [],
                      ring_station 10003 (190, 190) [3, 1] vs2,
                      ring_station 10004 (10, 190) [0, 2] vs3],
      vehicle_arena = arena,
      schedule = [Station 0, Station 1, Station 2, Station 3] @ map Vehicle [0..<length arena]\<rparr>"

definition two_trace :: vehicle_trace where
  "two_trace = \<lparr>first_ts = 0, last_ts = 1,
      trace_df = [\<lparr>timestep_time = 0, vehicle_x = 20, vehicle_y = 190, vehicle_angle = 0\<rparr>,
                  \<lparr>timestep_time = 1, vehicle_x = 150, vehicle_y = 190, vehicle_angle = 0\<rparr>]\<rparr>"

definition late_trace :: vehicle_trace where
  "late_trace = \<lparr>first_ts = 1, last_ts = 1,
      trace_df = [\<lparr>timestep_time = 1, vehicle_x = 50, vehicle_y = 50, vehicle_angle = 0\<rparr>]\<rparr>"

definition rider :: "vehicle_trace \<Rightarrow> nat \<Rightarrow> nat \<Rightarrow> bool \<Rightarrow> position \<Rightarrow> nat option \<Rightarrow> vehicle_agent" where
  "rider tr n i act p s =
     \<lparr>unique_id = 1, ts = n, trace_i = i, trace = tr, active = act, angle = 0,
      station = s, pos = Some p\<rparr>"

text \<open>
  A fleet of eleven vehicles: one that drives back towards its first station at timestep
  3, nine that stop after timestep 1, and one that reaches its last position at timestep
  2.
\<close>

definition back_trace :: vehicle_trace where
  "back_trace = \<lparr>first_ts = 0, last_ts = 3,
      trace_df = [\<lparr>timestep_time = 0, vehicle_x = 20, vehicle_y = 190, vehicle_angle = 0\<rparr>,
                  \<lparr>timestep_time = 1, vehicle_x = 150, vehicle_y = 190, vehicle_angle = 0\<rparr>,
                  \<lparr>timestep_time = 2, vehicle_x = 150, vehicle_y = 190, vehicle_angle = 0\<rparr>,
                  \<lparr>timestep_time = 3, vehicle_x = 50, vehicle_y = 190, vehicle_angle = 180\<rparr>]\<rparr>"

definition slow_trace :: vehicle_trace where
  "slow_trace = \<lparr>first_ts = 0, last_ts = 2,
      trace_df = [\<lparr>timestep_time = 0, vehicle_x = 20, vehicle_y = 190, vehicle_angle = 0\<rparr>,
                  \<lparr>timestep_time = 1, vehicle_x = 20, vehicle_y = 190, vehicle_angle = 0\<rparr>,
                  \<lparr>timestep_time = 2, vehicle_x = 150, vehicle_y = 190, vehicle_angle = 0\<rparr>]\<rparr>"

definition crowd_traces :: "vehicle_trace list" where
  "crowd_traces = [back_trace, two_trace, two_trace, two_trace, two_trace, two_trace,
                   two_trace, two_trace, two_trace, two_trace, slow_trace]"

definition car :: "nat \<Rightarrow> vehicle_trace \<Rightarrow> nat \<Rightarrow> nat \<Rightarrow> bool \<Rightarrow> position \<Rightarrow> real \<Rightarrow> nat \<Rightarrow> vehicle_agent" where
  "car uid tr n i act p a s =
     \<lparr>unique_id = uid, ts = n, trace_i = i, trace = tr, active = act, angle = a,
      station = Some s, pos = Some p\<rparr>"

definition fleet :: "vehicle_agent \<Rightarrow> (nat \<Rightarrow> vehicle_agent) \<Rightarrow> vehicle_agent \<Rightarrow> vehicle_agent list" where
  "fleet a fs b = a # map fs [2, 3, 4, 5, 6, 7, 8, 9, 10] @ [b]"

section \<open>Arithmetic and list facts\<close>

lemma imt_iff: "is_moving_towards (px, py) h (tx, ty) \<longleftrightarrow>
   cos (radians h) * (tx - px) + sin (radians h) * (ty - py) > 0"
  by (simp add: is_moving_towards_def Let_def)

lemma r45: "radians 45 = pi / 4" by (simp add: radians_def)

lemma r90: "radians 90 = pi / 2" by (simp add: radians_def)

lemma r0: "radians 0 = 0" by (simp add: radians_def)

lemma rad_add: "radians (a + b) = radians a + radians b" by (simp add: radians_def add_divide_distrib distrib_right)

lemma rad_diff: "radians (a - b) = radians a - radians b" by (simp add: radians_def diff_divide_distrib left_diff_distrib)

lemma sum_cs: "cos x + sin x = sqrt 2 * sin (x + pi / 4)"
  by (simp add: sin_add cos_45 sin_45 algebra_simps)

lemma external_time_div2: "external_time n = int (n div 2)"
proof -
  have "real n * TIME_STEP_S = real n / 2" by (simp add: TIME_STEP_S_def TIME_STEP_MS_def)
  moreover have "\<lfloor>real n / 2\<rfloor> = int (n div 2)"
    by (metis floor_divide_of_nat_eq of_nat_numeral)
  ultimately show ?thesis unfolding external_time_def by (simp only:)
qed

lemma ext1: "external_time (Suc 0) = 0" by (simp add: external_time_div2)



lemma sqrt_le_iff: "0 \<le> c \<Longrightarrow> (sqrt x \<le> c) = (x \<le> c\<^sup>2)"
  by (metis real_sqrt_abs abs_of_nonneg real_sqrt_le_iff)

lemma upt4: "[0..<4] = [0, 1, 2, 3]" by (simp add: upt_rec)

lemma length4: "length xs = 4 \<Longrightarrow> \<exists>a b c d. xs = [a, b, c, d]"
  by (auto simp: length_Suc_conv eval_nat_numeral)

lemma map_update_same: "f y = f (xs ! i) \<Longrightarrow> map f (xs[i := y]) = map f xs"
proof (cases "i < length xs")
  case True
  assume "f y = f (xs ! i)"
  with True show ?thesis by (simp add: map_update list_update_same_conv)
next
  case False
  then show ?thesis by (simp add: list_update_beyond not_less)
qed

lemma sum_list_map_update:
  fixes f :: "'a \<Rightarrow> int"
  shows "i < length xs \<Longrightarrow> sum_list (map f (xs[i := y])) = sum_list (map f xs) - f (xs ! i) + f y"
proof (induction xs arbitrary: i)
  case Nil
  then show ?case by simp
next
  case (Cons x xs)
  then show ?case by (cases i) simp_all
qed

lemma sum_list_all_zero: "\<forall>x \<in> set xs. f x = (0::int) \<Longrightarrow> sum_list (map f xs) = 0"
  by (induction xs) simp_all

lemma bound_compose:
  fixes a0 a1 a2 c0 c1 c2 :: int and l0 l1 l2 :: nat
  assumes "l1 = l0 \<and> c1 = c0 \<and> a1 \<le> max a0 c0" and "l2 = l1 \<and> c2 = c1 \<and> a2 \<le> max a1 c1"
  shows "l2 = l0 \<and> c2 = c0 \<and> a2 \<le> max a0 c0"
proof -
  from assms have "l2 = l0" "c2 = c0" "a1 \<le> max a0 c0" "a2 \<le> max a1 c0" by simp_all
  then show ?thesis by linarith
qed

section \<open>Python's \<^verbatim>\<open>min\<close> returns the first minimum\<close>

lemma min_loop_char:
  "\<exists>i < length (b # xs). min_loop f b xs = (b # xs) ! i
      \<and> (\<forall>j < length (b # xs). f ((b # xs) ! i) \<le> f ((b # xs) ! j))
      \<and> (\<forall>j < i. f ((b # xs) ! i) < f ((b # xs) ! j))"
proof (induction xs arbitrary: b)
  case Nil
  then show ?case by simp
next
  case (Cons x xs)
  show ?case
  proof (cases "f x < f b")
    case True
    from Cons.IH[of x] obtain i where i: "i < length (x # xs)" "min_loop f x xs = (x # xs) ! i"
      "\<forall>j < length (x # xs). f ((x # xs) ! i) \<le> f ((x # xs) ! j)"
      "\<forall>j < i. f ((x # xs) ! i) < f ((x # xs) ! j)" by blast
    have le_x: "f ((x # xs) ! i) \<le> f x" using i(3) by force
    show ?thesis
    proof (intro exI[of _ "Suc i"] conjI allI impI)
      show "Suc i < length (b # x # xs)" using i(1) by simp
      show "min_loop f b (x # xs) = (b # x # xs) ! Suc i" using True i(2) by simp
    next
      fix j assume "j < length (b # x # xs)"
      then show "f ((b # x # xs) ! Suc i) \<le> f ((b # x # xs) ! j)"
        using i(3) le_x True by (cases j) auto
    next
      fix j assume "j < Suc i"
      then show "f ((b # x # xs) ! Suc i) < f ((b # x # xs) ! j)"
        using i(4) le_x True by (cases j) auto
    qed
  next
    case False
    from Cons.IH[of b] obtain i where i: "i < length (b # xs)" "min_loop f b xs = (b # xs) ! i"
      "\<forall>j < length (b # xs). f ((b # xs) ! i) \<le> f ((b # xs) ! j)"
      "\<forall>j < i. f ((b # xs) ! i) < f ((b # xs) ! j)" by blast
    show ?thesis
    proof (cases i)
      case 0
      show ?thesis
      proof (intro exI[of _ 0] conjI allI impI)
        show "min_loop f b (x # xs) = (b # x # xs) ! 0" using False i(2) 0 by simp
      next
        fix j assume j: "j < length (b # x # xs)"
        show "f ((b # x # xs) ! 0) \<le> f ((b # x # xs) ! j)"
        proof (cases j)
          case 0 then show ?thesis by simp
        next
          case (Suc k)
          show ?thesis
          proof (cases k)
            case 0 with Suc False show ?thesis by simp
          next
            case (Suc l)
            with \<open>j = Suc k\<close> j have "Suc l < length (b # xs)" by simp
            with i(3) \<open>i = 0\<close> have "f b \<le> f ((b # xs) ! Suc l)" by force
            with Suc \<open>j = Suc k\<close> show ?thesis by simp
          qed
        qed
      qed simp_all
    next
      case (Suc k)
      show ?thesis
      proof (intro exI[of _ "Suc (Suc k)"] conjI allI impI)
        show "Suc (Suc k) < length (b # x # xs)" using i(1) Suc by simp
        show "min_loop f b (x # xs) = (b # x # xs) ! Suc (Suc k)" using False i(2) Suc by simp
      next
        have lt_b: "f (xs ! k) < f b" using i(4) Suc by force
        fix j assume j: "j < length (b # x # xs)"
        show "f ((b # x # xs) ! Suc (Suc k)) \<le> f ((b # x # xs) ! j)"
        proof (cases j)
          case 0 then show ?thesis using lt_b by simp
        next
          case (Suc a)
          show ?thesis
          proof (cases a)
            case 0 with \<open>j = Suc a\<close> False lt_b show ?thesis by simp
          next
            case (Suc l)
            with \<open>j = Suc a\<close> j have "Suc l < length (b # xs)" by simp
            with i(3) \<open>i = Suc k\<close> have "f (xs ! k) \<le> f ((b # xs) ! Suc l)" by force
            with Suc \<open>j = Suc a\<close> show ?thesis by simp
          qed
        qed
      next
        have lt_b: "f (xs ! k) < f b" using i(4) Suc by force
        fix j assume j: "j < Suc (Suc k)"
        show "f ((b # x # xs) ! Suc (Suc k)) < f ((b # x # xs) ! j)"
        proof (cases j)
          case 0 then show ?thesis using lt_b by simp
        next
          case (Suc a)
          show ?thesis
          proof (cases a)
            case 0 with \<open>j = Suc a\<close> False lt_b show ?thesis by simp
          next
            case (Suc l)
            with \<open>j = Suc a\<close> j have "Suc l < Suc k" by simp
            with i(4) \<open>i = Suc k\<close> have "f (xs ! k) < f ((b # xs) ! Suc l)" by force
            with Suc \<open>j = Suc a\<close> show ?thesis by simp
          qed
        qed
      qed
    qed
  qed
qed

lemma py_min_upt:
  assumes "py_min f [0..<n] = Inr st"
  shows "st < n \<and> (\<forall>j < n. f st \<le> f j) \<and> (\<forall>j < st. f st < f j)"
proof -
  from assms obtain x rest where xr: "[0..<n] = x # rest" "st = min_loop f x rest"
    by (auto simp: py_min_def split: list.splits)
  from min_loop_char[of x rest f] obtain i where i: "i < length (x # rest)"
     "min_loop f x rest = (x # rest) ! i"
     "\<forall>j < length (x # rest). f ((x # rest) ! i) \<le> f ((x # rest) ! j)"
     "\<forall>j < i. f ((x # rest) ! i) < f ((x # rest) ! j)" by blast
  have len: "length (x # rest) = n" using xr(1) by (metis length_upt minus_nat.diff_0)
  have nth: "\<And>j. j < n \<Longrightarrow> (x # rest) ! j = j" using xr(1) by (metis add_0 nth_upt)
  have sti: "st = i" using i(1,2) xr(2) len nth by simp
  show ?thesis
  proof (intro conjI allI impI)
    show "st < n" using sti i(1) len by simp
  next
    fix j assume j: "j < n"
    then have "f ((x # rest) ! i) \<le> f ((x # rest) ! j)" using i(3) len by blast
    moreover have "(x # rest) ! i = st" using i(2) xr(2) by simp
    ultimately show "f st \<le> f j" using nth[OF j] by simp
  next
    fix j assume j: "j < st"
    then have "f ((x # rest) ! i) < f ((x # rest) ! j)" using i(4) sti by blast
    moreover have "(x # rest) ! i = st" using i(2) xr(2) by simp
    moreover have "j < n" using j sti i(1) len by simp
    ultimately show "f st < f j" using nth[of j] by simp
  qed
qed

section \<open>The shape of a handover\<close>

lemma py_remove_Inr: "py_remove x xs = Inr ys \<Longrightarrow> x \<in> set xs \<and> ys = remove1 x xs"
  by (auto simp: py_remove_def split: if_splits)

lemma hand_over_shape:
  assumes h: "hand_over m self v nb = Inr m'" and ne: "nb \<noteq> self"
  shows "v \<in> set (vehicles (vec_stations m ! self))"
    and "vec_stations m' =
           (vec_stations m)[self := (vec_stations m ! self)
                               \<lparr>vehicles := remove1 v (vehicles (vec_stations m ! self))\<rparr>,
                            nb := (vec_stations m ! nb)
                               \<lparr>vehicles := vehicles (vec_stations m ! nb) @ [v]\<rparr>]"
    and "vehicle_arena m' = (vehicle_arena m)[v := (vehicle_arena m ! v)\<lparr>station := Some nb\<rparr>]"
    and "schedule m' = schedule m" and "space m' = space m"
proof -
  from h obtain vs where vs: "py_remove v (vehicles (vec_stations m ! self)) = Inr vs"
    and m': "m' = m\<lparr>vec_stations :=
        (vec_stations m)[self := (vec_stations m ! self)\<lparr>vehicles := vs\<rparr>,
           nb := ((vec_stations m)[self := (vec_stations m ! self)\<lparr>vehicles := vs\<rparr>] ! nb)
                   \<lparr>vehicles := vehicles ((vec_stations m)[self := (vec_stations m ! self)\<lparr>vehicles := vs\<rparr>] ! nb) @ [v]\<rparr>],
        vehicle_arena := (vehicle_arena m)[v := (vehicle_arena m ! v)\<lparr>station := Some nb\<rparr>]\<rparr>"
    by (auto simp: hand_over_def Let_def split: sum.splits)
  from py_remove_Inr[OF vs] show "v \<in> set (vehicles (vec_stations m ! self))" by simp
  from py_remove_Inr[OF vs] have vs': "vs = remove1 v (vehicles (vec_stations m ! self))" by simp
  have nth: "(vec_stations m)[self := (vec_stations m ! self)\<lparr>vehicles := vs\<rparr>] ! nb = vec_stations m ! nb"
    using ne by simp
  show "vec_stations m' =
           (vec_stations m)[self := (vec_stations m ! self)
                               \<lparr>vehicles := remove1 v (vehicles (vec_stations m ! self))\<rparr>,
                            nb := (vec_stations m ! nb)
                               \<lparr>vehicles := vehicles (vec_stations m ! nb) @ [v]\<rparr>]"
    using nth unfolding m' vs' by simp
  show "vehicle_arena m' = (vehicle_arena m)[v := (vehicle_arena m ! v)\<lparr>station := Some nb\<rparr>]"
    unfolding m' by simp
  show "schedule m' = schedule m" "space m' = space m" unfolding m' by simp_all
qed

lemma hand_over_lengths:
  assumes "hand_over m self v nb = Inr m'"
  shows "length (vec_stations m') = length (vec_stations m)"
    and "length (vehicle_arena m') = length (vehicle_arena m)"
  using assms by (auto simp: hand_over_def Let_def split: sum.splits)

lemma hand_over_vehicles:
  assumes h: "hand_over m self v nb = Inr m'" and ne: "nb \<noteq> self"
    and t: "t < length (vec_stations m)"
  shows "vehicles (vec_stations m' ! t) =
           (if t = nb then vehicles (vec_stations m ! nb) @ [v]
            else if t = self then remove1 v (vehicles (vec_stations m ! self))
            else vehicles (vec_stations m ! t))"
    and "neighbors (vec_stations m' ! t) = neighbors (vec_stations m ! t)"
    and "capacity (vec_stations m' ! t) = capacity (vec_stations m ! t)"
    and "station_pos (vec_stations m' ! t) = station_pos (vec_stations m ! t)"
    and "range_m (vec_stations m' ! t) = range_m (vec_stations m ! t)"
    and "distance_threshold (vec_stations m' ! t) = distance_threshold (vec_stations m ! t)"
proof -
  have c: "t = nb \<or> (t \<noteq> nb \<and> t = self) \<or> (t \<noteq> nb \<and> t \<noteq> self)" by blast
  note sh = hand_over_shape(2)[OF h ne]
  show "vehicles (vec_stations m' ! t) =
           (if t = nb then vehicles (vec_stations m ! nb) @ [v]
            else if t = self then remove1 v (vehicles (vec_stations m ! self))
            else vehicles (vec_stations m ! t))"
    using c t ne unfolding sh by (elim disjE) (simp_all)
  show "neighbors (vec_stations m' ! t) = neighbors (vec_stations m ! t)"
    using c t ne unfolding sh by (elim disjE) (simp_all)
  show "capacity (vec_stations m' ! t) = capacity (vec_stations m ! t)"
    using c t ne unfolding sh by (elim disjE) (simp_all)
  show "station_pos (vec_stations m' ! t) = station_pos (vec_stations m ! t)"
    using c t ne unfolding sh by (elim disjE) (simp_all)
  show "range_m (vec_stations m' ! t) = range_m (vec_stations m ! t)"
    using c t ne unfolding sh by (elim disjE) (simp_all)
  show "distance_threshold (vec_stations m' ! t) = distance_threshold (vec_stations m ! t)"
    using c t ne unfolding sh by (elim disjE) (simp_all)
qed

lemma hand_over_station:
  assumes h: "hand_over m self v nb = Inr m'" and ne: "nb \<noteq> self"
    and u: "u < length (vehicle_arena m)"
  shows "station (vehicle_arena m' ! u) = (if u = v then Some nb else station (vehicle_arena m ! u))"
  using u unfolding hand_over_shape(3)[OF h ne] by (cases "u = v") simp_all


lemma scan_Some:
  "scan m p a cs = Some nb \<Longrightarrow>
     nb \<in> snd ` set cs \<and> load (vec_stations m ! nb) < capacity (vec_stations m ! nb)
       \<and> is_moving_towards p a (station_pos (vec_stations m ! nb))"
  by (induction cs) (auto split: if_splits)


lemma candidates_snd: "snd ` set (candidates m self p) =
    {x \<in> set (neighbors (vec_stations m ! self)). x \<noteq> self}"
  by (auto simp: candidates_def image_iff)



lemma attempt_handover_cases:
  assumes "attempt_handover m self v = Inr m'"
  shows "m' = m \<or> (\<exists>nb. nb \<in> set (neighbors (vec_stations m ! self)) \<and> nb \<noteq> self
            \<and> load (vec_stations m ! nb) < capacity (vec_stations m ! nb)
            \<and> hand_over m self v nb = Inr m')"
proof (cases "pos (vehicle_arena m ! v)")
  case None
  with assms show ?thesis by (auto simp: attempt_handover_def split: if_splits)
next
  case (Some p)
  show ?thesis
  proof (cases "scan m p (angle (vehicle_arena m ! v)) (sort_key fst (candidates m self p))")
    case None
    with assms Some show ?thesis by (simp add: attempt_handover_def)
  next
    case (Some nb)
    from scan_Some[OF Some] have "nb \<in> snd ` set (candidates m self p)"
      and "load (vec_stations m ! nb) < capacity (vec_stations m ! nb)" by simp_all
    then have "nb \<in> set (neighbors (vec_stations m ! self))" "nb \<noteq> self"
      unfolding candidates_snd by simp_all
    moreover have "hand_over m self v nb = Inr m'"
      using assms Some \<open>pos (vehicle_arena m ! v) = Some p\<close> by (simp add: attempt_handover_def)
    ultimately show ?thesis using \<open>load (vec_stations m ! nb) < capacity (vec_stations m ! nb)\<close> by blast
  qed
qed

lemma attempt_handover_Some:
  "pos (vehicle_arena m ! v) = Some p \<Longrightarrow>
   attempt_handover m self v =
     (case scan m p (angle (vehicle_arena m ! v)) (sort_key fst (candidates m self p)) of
        None \<Rightarrow> Inr m
      | Some nb \<Rightarrow> hand_over m self v nb)"
  by (simp add: attempt_handover_def)

section \<open>The invariant is kept by every step\<close>

lemma hand_over_total_load:
  assumes h: "hand_over m self v nb = Inr m'" and ne: "nb \<noteq> self"
    and s: "self < length (vec_stations m)" and n: "nb < length (vec_stations m)"
  shows "total_load m' = total_load m"
proof -
  let ?st = "vec_stations m"
  let ?A = "(?st ! self)\<lparr>vehicles := remove1 v (vehicles (?st ! self))\<rparr>"
  let ?B = "(?st ! nb)\<lparr>vehicles := vehicles (?st ! nb) @ [v]\<rparr>"
  have vin: "v \<in> set (vehicles (?st ! self))" by (rule hand_over_shape(1)[OF h ne])
  have lA: "load ?A = load (?st ! self) - 1"
  proof -
    have "0 < length (vehicles (?st ! self))" using vin by (rule length_pos_if_in_set)
    then have "int (length (vehicles (?st ! self)) - 1) = int (length (vehicles (?st ! self))) - 1"
      by linarith
    then show ?thesis using vin by (simp add: load_def length_remove1)
  qed
  have lB: "load ?B = load (?st ! nb) + 1" by (simp add: load_def)
  have "total_load m' = sum_list (map load (?st[self := ?A, nb := ?B]))"
    unfolding total_load_def hand_over_shape(2)[OF h ne] ..
  also have "\<dots> = sum_list (map load (?st[self := ?A])) - load ((?st[self := ?A]) ! nb) + load ?B"
    using n by (simp add: sum_list_map_update)
  also have "(?st[self := ?A]) ! nb = ?st ! nb" using ne by simp
  also have "sum_list (map load (?st[self := ?A])) = sum_list (map load ?st) - load (?st ! self) + load ?A"
    using s by (simp add: sum_list_map_update)
  finally show ?thesis unfolding lA lB total_load_def by simp
qed

lemma hand_over_inv:
  assumes inv: "model_inv m" and h: "hand_over m self v nb = Inr m'" and ne: "nb \<noteq> self"
    and s: "self < length (vec_stations m)" and n: "nb < length (vec_stations m)"
  shows "model_inv m'"
proof -
  note len = hand_over_lengths[OF h]
  note veh = hand_over_vehicles(1)[OF h ne] and nbr = hand_over_vehicles(2)[OF h ne]
  note stn = hand_over_station[OF h ne]
  have vin: "v \<in> set (vehicles (vec_stations m ! self))" by (rule hand_over_shape(1)[OF h ne])
  from inv have ho: "handles_ok m" and so: "schedule_ok m" and sc: "served_consistent m"
    and sd: "served_distinct m" and cv: "served_cover m"
    and tl: "total_load m = int (length (vehicle_arena m))"
    by (simp_all add: model_inv_def)
  have vlt: "v < length (vehicle_arena m)" using ho s vin by (auto simp: handles_ok_def)
  have vst: "station (vehicle_arena m ! v) = Some self" using sc s vin by (auto simp: served_consistent_def)
  have vnb: "v \<notin> set (vehicles (vec_stations m ! nb))"
  proof
    assume "v \<in> set (vehicles (vec_stations m ! nb))"
    with sc n have "station (vehicle_arena m ! v) = Some nb" by (auto simp: served_consistent_def)
    with vst ne show False by simp
  qed
  have dself: "distinct (vehicles (vec_stations m ! self))" using sd s by (simp add: served_distinct_def)
  have ho': "handles_ok m'"
    unfolding handles_ok_def len
  proof (intro allI impI conjI ballI)
    fix t k assume t: "t < length (vec_stations m)" and "k \<in> set (neighbors (vec_stations m' ! t))"
    then show "k < length (vec_stations m)" using ho nbr[OF t] by (auto simp: handles_ok_def)
  next
    fix t u assume t: "t < length (vec_stations m)" and u: "u \<in> set (vehicles (vec_stations m' ! t))"
    have "\<And>w. w \<in> set (vehicles (vec_stations m ! t)) \<Longrightarrow> w < length (vehicle_arena m)"
      using ho t by (auto simp: handles_ok_def)
    moreover have "\<And>w. w \<in> set (vehicles (vec_stations m ! nb)) \<Longrightarrow> w < length (vehicle_arena m)"
      using ho n by (auto simp: handles_ok_def)
    ultimately show "u < length (vehicle_arena m)"
      using u vlt unfolding veh[OF t] by (auto split: if_splits dest: notin_set_remove1)
  qed
  have so': "schedule_ok m'"
    using so unfolding schedule_ok_def len hand_over_shape(4)[OF h ne] .
  have sc': "served_consistent m'"
    unfolding served_consistent_def len
  proof (intro allI impI ballI)
    fix t u assume t: "t < length (vec_stations m)" and u: "u \<in> set (vehicles (vec_stations m' ! t))"
    show "station (vehicle_arena m' ! u) = Some t"
    proof (cases "t = nb")
      case True
      with u veh[OF t] have "u = v \<or> u \<in> set (vehicles (vec_stations m ! nb))" by auto
      then show ?thesis
      proof
        assume "u = v" then show ?thesis using stn[OF vlt] True by simp
      next
        assume a: "u \<in> set (vehicles (vec_stations m ! nb))"
        then have "u \<noteq> v" using vnb by auto
        moreover have "u < length (vehicle_arena m)" using ho n a by (auto simp: handles_ok_def)
        moreover have "station (vehicle_arena m ! u) = Some nb" using sc n a by (auto simp: served_consistent_def)
        ultimately show ?thesis using stn[of u] True by simp
      qed
    next
      case False
      show ?thesis
      proof (cases "t = self")
        case True
        with u veh[OF t] False have a: "u \<in> set (remove1 v (vehicles (vec_stations m ! self)))" by simp
        then have "u \<noteq> v" using dself by auto
        moreover have b: "u \<in> set (vehicles (vec_stations m ! self))" using a set_remove1_subset by fastforce
        moreover have "u < length (vehicle_arena m)" using ho s b by (auto simp: handles_ok_def)
        moreover have "station (vehicle_arena m ! u) = Some self" using sc s b by (auto simp: served_consistent_def)
        ultimately show ?thesis using stn[of u] True by simp
      next
        case nself: False
        with u veh[OF t] False have a: "u \<in> set (vehicles (vec_stations m ! t))" by simp
        have "station (vehicle_arena m ! u) = Some t" using sc t a by (auto simp: served_consistent_def)
        moreover have "u \<noteq> v" using calculation vst nself by auto
        moreover have "u < length (vehicle_arena m)" using ho t a by (auto simp: handles_ok_def)
        ultimately show ?thesis using stn[of u] by simp
      qed
    qed
  qed
  have sd': "served_distinct m'"
    unfolding served_distinct_def len
  proof (intro allI impI)
    fix t assume t: "t < length (vec_stations m)"
    have "distinct (vehicles (vec_stations m ! t))" "distinct (vehicles (vec_stations m ! nb))"
      using sd t n by (simp_all add: served_distinct_def)
    then show "distinct (vehicles (vec_stations m' ! t))"
      using vnb dself unfolding veh[OF t] by simp
  qed
  have cv': "served_cover m'"
    unfolding served_cover_def len
  proof (intro allI impI)
    fix u assume u: "u < length (vehicle_arena m)"
    show "\<exists>t < length (vec_stations m). u \<in> set (vehicles (vec_stations m' ! t))"
    proof (cases "u = v")
      case True
      then show ?thesis using n veh[OF n] by (intro exI[of _ nb]) simp
    next
      case False
      from cv u obtain t where t: "t < length (vec_stations m)" "u \<in> set (vehicles (vec_stations m ! t))"
        by (auto simp: served_cover_def)
      then show ?thesis using False veh[OF t(1)] by (intro exI[of _ t]) auto
    qed
  qed
  have "total_load m' = int (length (vehicle_arena m'))"
    using hand_over_total_load[OF h ne s n] tl len by simp
  with ho' so' sc' sd' cv' show ?thesis by (simp add: model_inv_def)
qed

lemma attempt_handover_inv:
  assumes inv: "model_inv m" and s: "self < length (vec_stations m)"
    and a: "attempt_handover m self v = Inr m'"
  shows "model_inv m' \<and> length (vec_stations m') = length (vec_stations m)"
proof -
  from attempt_handover_cases[OF a] show ?thesis
  proof
    assume "m' = m" with inv show ?thesis by simp
  next
    assume "\<exists>nb. nb \<in> set (neighbors (vec_stations m ! self)) \<and> nb \<noteq> self
            \<and> load (vec_stations m ! nb) < capacity (vec_stations m ! nb)
            \<and> hand_over m self v nb = Inr m'"
    then obtain nb where nb: "nb \<in> set (neighbors (vec_stations m ! self))" "nb \<noteq> self"
      "hand_over m self v nb = Inr m'" by blast
    have "nb < length (vec_stations m)" using inv s nb(1) by (auto simp: model_inv_def handles_ok_def)
    from hand_over_inv[OF inv nb(3) nb(2) s this] hand_over_lengths(1)[OF nb(3)]
    show ?thesis by simp
  qed
qed

lemma station_loop_inv:
  "model_inv m \<Longrightarrow> self < length (vec_stations m) \<Longrightarrow> station_loop m self vs = Inr m' \<Longrightarrow>
     model_inv m' \<and> length (vec_stations m') = length (vec_stations m)"
proof (induction vs arbitrary: m)
  case Nil
  then show ?case by simp
next
  case (Cons v vs)
  from Cons.prems(3) obtain ex where ex: "is_vehicle_exiting (vec_stations m ! self) (vehicle_arena m ! v) = Inr ex"
    by (auto split: sum.splits)
  show ?case
  proof (cases ex)
    case False
    with Cons.prems(3) ex have "station_loop m self vs = Inr m'" by simp
    from Cons.IH[OF Cons.prems(1,2) this] show ?thesis .
  next
    case True
    with Cons.prems(3) ex obtain m1 where m1: "attempt_handover m self v = Inr m1"
      "station_loop m1 self vs = Inr m'" by (auto split: sum.splits)
    from attempt_handover_inv[OF Cons.prems(1,2) m1(1)]
    have i1: "model_inv m1" and l1: "length (vec_stations m1) = length (vec_stations m)" by simp_all
    from Cons.IH[OF i1 _ m1(2)] l1 Cons.prems(2) show ?thesis by simp
  qed
qed

lemma do_step_station: "do_step sp v t = Inr v' \<Longrightarrow> station v' = station v"
  by (auto simp: do_step_def Let_def move_agent_def split: sum.splits if_splits)

lemma vehicle_step_station: "vehicle_step sp v = Inr v' \<Longrightarrow> station v' = station v"
  by (auto simp: vehicle_step_def Let_def split: sum.splits if_splits dest: do_step_station)

lemma arena_update_inv:
  assumes inv: "model_inv m" and st: "station v' = station (vehicle_arena m ! j)"
  shows "model_inv (m\<lparr>vehicle_arena := (vehicle_arena m)[j := v']\<rparr>)"
proof -
  have "\<And>u. u < length (vehicle_arena m) \<Longrightarrow>
          station ((vehicle_arena m)[j := v'] ! u) = station (vehicle_arena m ! u)"
  proof -
    fix u assume "u < length (vehicle_arena m)"
    then show "station ((vehicle_arena m)[j := v'] ! u) = station (vehicle_arena m ! u)"
      using st by (cases "u = j") simp_all
  qed
  note stn = this
  let ?m = "m\<lparr>vehicle_arena := (vehicle_arena m)[j := v']\<rparr>"
  from inv have ho: "handles_ok m" and so: "schedule_ok m" and sc: "served_consistent m"
    and sd: "served_distinct m" and cv: "served_cover m"
    and tl: "total_load m = int (length (vehicle_arena m))"
    by (simp_all add: model_inv_def)
  have "handles_ok ?m" using ho by (simp add: handles_ok_def)
  moreover have "schedule_ok ?m" using so by (simp add: schedule_ok_def)
  moreover have "served_consistent ?m" using sc ho stn
    by (simp add: served_consistent_def handles_ok_def)
  moreover have "served_distinct ?m" using sd by (simp add: served_distinct_def)
  moreover have "served_cover ?m" using cv by (simp add: served_cover_def)
  moreover have "total_load ?m = int (length (vehicle_arena ?m))" using tl by (simp add: total_load_def)
  ultimately show ?thesis by (simp add: model_inv_def)
qed

lemma agent_step_inv:
  assumes inv: "model_inv m" and ok: "\<forall>i. a = Station i \<longrightarrow> i < length (vec_stations m)"
    and st: "agent_step m a = Inr m'"
  shows "model_inv m' \<and> length (vec_stations m') = length (vec_stations m)"
proof (cases a)
  case (Station i)
  with st have "station_loop m i (vehicles (vec_stations m ! i)) = Inr m'"
    by (simp add: agent_step_def station_step_def)
  moreover have "i < length (vec_stations m)" using ok Station by simp
  ultimately show ?thesis using station_loop_inv[OF inv] by blast
next
  case (Vehicle j)
  with st obtain v' where v': "vehicle_step (space m) (vehicle_arena m ! j) = Inr v'"
    "m' = m\<lparr>vehicle_arena := (vehicle_arena m)[j := v']\<rparr>"
    by (auto simp: agent_step_def split: sum.splits)
  from arena_update_inv[OF inv vehicle_step_station[OF v'(1)]] v'(2) show ?thesis by simp
qed

lemma schedule_step_inv:
  "model_inv m \<Longrightarrow> \<forall>i. Station i \<in> set as \<longrightarrow> i < length (vec_stations m)
     \<Longrightarrow> schedule_step m as = Inr m' \<Longrightarrow> model_inv m'"
proof (induction as arbitrary: m)
  case Nil
  then show ?case by simp
next
  case (Cons a as)
  from Cons.prems(3) obtain m1 where m1: "agent_step m a = Inr m1" "schedule_step m1 as = Inr m'"
    by (auto split: sum.splits)
  have "\<forall>i. a = Station i \<longrightarrow> i < length (vec_stations m)"
    using Cons.prems(2) by simp
  from agent_step_inv[OF Cons.prems(1) this m1(1)]
  have i1: "model_inv m1" and l1: "length (vec_stations m1) = length (vec_stations m)" by simp_all
  have "\<forall>i. Station i \<in> set as \<longrightarrow> i < length (vec_stations m1)"
    using Cons.prems(2) unfolding l1 by simp
  from Cons.IH[OF i1 this m1(2)] show ?case .
qed

lemma model_step_inv: "model_inv m \<Longrightarrow> model_step m = Inr m' \<Longrightarrow> model_inv m'"
proof -
  assume inv: "model_inv m" and st: "model_step m = Inr m'"
  have "\<forall>i. Station i \<in> set (schedule m) \<longrightarrow> i < length (vec_stations m)"
    using inv by (simp add: model_inv_def schedule_ok_def)
  from schedule_step_inv[OF inv this] st show ?thesis by (simp add: model_step_def)
qed

lemma run_ticks_inv: "model_inv m \<Longrightarrow> run_ticks n m = Inr m' \<Longrightarrow> model_inv m'"
  by (induction n arbitrary: m) (auto split: sum.splits dest: model_step_inv)

section \<open>The constructor establishes the invariant\<close>

lemma spawn_vehicle_shape:
  assumes "spawn_vehicle m p vehicle_id tr = Inr m'"
  shows "\<exists>st v1. st < length (vec_stations m) \<and> pos v1 = Some p \<and>
          m' = m\<lparr>vec_stations := (vec_stations m)[st := (vec_stations m ! st)
                     \<lparr>vehicles := vehicles (vec_stations m ! st) @ [length (vehicle_arena m)]\<rparr>],
                vehicle_arena := vehicle_arena m @ [v1\<lparr>station := Some st\<rparr>],
                schedule := schedule m @ [Vehicle (length (vehicle_arena m))]\<rparr>"
proof -
  from assms obtain v0 v1 vp st where
    v1: "place_agent (space m) v0 p = Inr v1" and
    vp: "pos v1 = Some vp" and
    st: "py_min (\<lambda>x. distance (station_pos (vec_stations m ! x)) vp) [0..<length (vec_stations m)] = Inr st" and
    m': "m' = m\<lparr>vec_stations := (vec_stations m)[st := (vec_stations m ! st)
                     \<lparr>vehicles := vehicles (vec_stations m ! st) @ [length (vehicle_arena m)]\<rparr>],
                vehicle_arena := vehicle_arena m @ [v1\<lparr>station := Some st\<rparr>],
                schedule := schedule m @ [Vehicle (length (vehicle_arena m))]\<rparr>"
    by (auto simp: spawn_vehicle_def Let_def split: sum.splits option.splits)
  have "vp = p" using v1 vp by (auto simp: place_agent_def split: if_splits)
  with py_min_upt[OF st] vp m' show ?thesis by blast
qed

lemma spawn_vehicle_inv:
  assumes inv: "model_inv m" and sp: "spawn_vehicle m p vehicle_id tr = Inr m'"
  shows "model_inv m'"
proof -
  from spawn_vehicle_shape[OF sp] obtain s v1 where s: "s < length (vec_stations m)"
    and m': "m' = m\<lparr>vec_stations := (vec_stations m)[s := (vec_stations m ! s)
                     \<lparr>vehicles := vehicles (vec_stations m ! s) @ [length (vehicle_arena m)]\<rparr>],
                vehicle_arena := vehicle_arena m @ [v1\<lparr>station := Some s\<rparr>],
                schedule := schedule m @ [Vehicle (length (vehicle_arena m))]\<rparr>" by blast
  let ?h = "length (vehicle_arena m)"
  from inv have ho: "handles_ok m" and so: "schedule_ok m" and sc: "served_consistent m"
    and sd: "served_distinct m" and cv: "served_cover m"
    and tl: "total_load m = int (length (vehicle_arena m))"
    by (simp_all add: model_inv_def)
  have len: "length (vec_stations m') = length (vec_stations m)"
     "length (vehicle_arena m') = Suc ?h" unfolding m' by simp_all
  have veh: "\<And>t. t < length (vec_stations m) \<Longrightarrow> vehicles (vec_stations m' ! t) =
      (if t = s then vehicles (vec_stations m ! s) @ [?h] else vehicles (vec_stations m ! t))"
    unfolding m' by (simp add: nth_list_update)
  have nbr: "\<And>t. t < length (vec_stations m) \<Longrightarrow> neighbors (vec_stations m' ! t) = neighbors (vec_stations m ! t)"
  proof -
    fix t assume "t < length (vec_stations m)"
    then show "neighbors (vec_stations m' ! t) = neighbors (vec_stations m ! t)"
      unfolding m' by (cases "t = s") simp_all
  qed
  have old: "\<And>t u. t < length (vec_stations m) \<Longrightarrow> u \<in> set (vehicles (vec_stations m ! t)) \<Longrightarrow> u < ?h"
    using ho by (auto simp: handles_ok_def)
  have stn: "\<And>u. u < ?h \<Longrightarrow> station (vehicle_arena m' ! u) = station (vehicle_arena m ! u)"
    unfolding m' by (simp add: nth_append)
  have stnh: "station (vehicle_arena m' ! ?h) = Some s" unfolding m' by simp
  have ho': "handles_ok m'"
    unfolding handles_ok_def len
  proof (intro allI impI conjI ballI)
    fix t k assume t: "t < length (vec_stations m)" and "k \<in> set (neighbors (vec_stations m' ! t))"
    then show "k < length (vec_stations m)" using ho nbr[OF t] by (auto simp: handles_ok_def)
  next
    fix t u assume t: "t < length (vec_stations m)" and u: "u \<in> set (vehicles (vec_stations m' ! t))"
    then show "u < Suc ?h" using old[OF t] old[OF s] unfolding veh[OF t]
      by (auto split: if_splits simp: less_Suc_eq)
  qed
  have so': "schedule_ok m'" using so unfolding schedule_ok_def len unfolding m'
    by (auto simp: less_Suc_eq)
  have sc': "served_consistent m'"
    unfolding served_consistent_def len
  proof (intro allI impI ballI)
    fix t u assume t: "t < length (vec_stations m)" and u: "u \<in> set (vehicles (vec_stations m' ! t))"
    from u veh[OF t] have "(t = s \<and> u = ?h) \<or> u \<in> set (vehicles (vec_stations m ! t))"
      by (auto split: if_splits)
    then show "station (vehicle_arena m' ! u) = Some t"
    proof
      assume "t = s \<and> u = ?h" then show ?thesis using stnh by simp
    next
      assume a: "u \<in> set (vehicles (vec_stations m ! t))"
      then have "station (vehicle_arena m ! u) = Some t" using sc t by (auto simp: served_consistent_def)
      then show ?thesis using stn[OF old[OF t a]] by simp
    qed
  qed
  have sd': "served_distinct m'"
    unfolding served_distinct_def len
  proof (intro allI impI)
    fix t assume t: "t < length (vec_stations m)"
    have "distinct (vehicles (vec_stations m ! t))" using sd t by (simp add: served_distinct_def)
    moreover have "?h \<notin> set (vehicles (vec_stations m ! t))" using old[OF t] by blast
    ultimately show "distinct (vehicles (vec_stations m' ! t))" unfolding veh[OF t] by auto
  qed
  have cv': "served_cover m'"
    unfolding served_cover_def len
  proof (intro allI impI)
    fix u assume u: "u < Suc ?h"
    show "\<exists>t < length (vec_stations m). u \<in> set (vehicles (vec_stations m' ! t))"
    proof (cases "u = ?h")
      case True
      then show ?thesis using s veh[OF s] by (intro exI[of _ s]) simp
    next
      case False
      with u have "u < ?h" by simp
      with cv obtain t where t: "t < length (vec_stations m)" "u \<in> set (vehicles (vec_stations m ! t))"
        by (auto simp: served_cover_def)
      then show ?thesis using veh[OF t(1)] by (intro exI[of _ t]) auto
    qed
  qed
  have "total_load m' = total_load m + 1"
    unfolding total_load_def m' using s by (simp add: sum_list_map_update load_def)
  then have "total_load m' = int (length (vehicle_arena m'))" using tl len by simp
  with ho' so' sc' sd' cv' show ?thesis by (simp add: model_inv_def)
qed

lemma spawn_all_inv:
  "model_inv m \<Longrightarrow> spawn_all m p vehicle_id trs = Inr m' \<Longrightarrow> model_inv m'"
  by (induction trs arbitrary: m vehicle_id) (auto split: sum.splits dest: spawn_vehicle_inv)

lemma create_stations_shape:
  "create_stations m i ps = Inr m' \<Longrightarrow>
     vehicle_arena m' = vehicle_arena m \<and> space m' = space m
     \<and> (\<exists>new. vec_stations m' = vec_stations m @ new \<and> map station_pos new = ps
            \<and> (\<forall>s \<in> set new. vehicles s = [] \<and> neighbors s = [] \<and> range_m s = 45
                  \<and> capacity s = 10 \<and> distance_threshold s = 0.7))
     \<and> schedule m' = schedule m @ map Station [length (vec_stations m)..<length (vec_stations m) + length ps]"
proof (induction ps arbitrary: m i)
  case Nil
  then show ?case by simp
next
  case (Cons p ps)
  let ?s = "VECStationAgent_init (10000 + i) p 45 10"
  let ?m1 = "m\<lparr>vec_stations := vec_stations m @ [?s], schedule := schedule m @ [Station (length (vec_stations m))]\<rparr>"
  from Cons.prems have r: "create_stations ?m1 (i + 1) ps = Inr m'"
    by (auto simp: Let_def split: if_splits)
  from Cons.IH[OF r] obtain new where
    a: "vehicle_arena m' = vehicle_arena m" "space m' = space m" and
    n: "vec_stations m' = (vec_stations m @ [?s]) @ new" "map station_pos new = ps"
       "\<forall>s \<in> set new. vehicles s = [] \<and> neighbors s = [] \<and> range_m s = 45
                  \<and> capacity s = 10 \<and> distance_threshold s = 0.7" and
    sch: "schedule m' = (schedule m @ [Station (length (vec_stations m))]) @
            map Station [Suc (length (vec_stations m))..<Suc (length (vec_stations m)) + length ps]"
    by auto
  have "vec_stations m' = vec_stations m @ (?s # new) \<and> map station_pos (?s # new) = p # ps
        \<and> (\<forall>s \<in> set (?s # new). vehicles s = [] \<and> neighbors s = [] \<and> range_m s = 45
                  \<and> capacity s = 10 \<and> distance_threshold s = 0.7)"
    using n by (simp add: VECStationAgent_init_def)
  then have "\<exists>new. vec_stations m' = vec_stations m @ new \<and> map station_pos new = p # ps
        \<and> (\<forall>s \<in> set new. vehicles s = [] \<and> neighbors s = [] \<and> range_m s = 45
                  \<and> capacity s = 10 \<and> distance_threshold s = 0.7)"
    by (rule exI[of _ "?s # new"])
  moreover have "schedule m' = schedule m @ map Station [length (vec_stations m)..<length (vec_stations m) + length (p # ps)]"
  proof -
    have "[length (vec_stations m)..<length (vec_stations m) + length (p # ps)] =
          length (vec_stations m) # [Suc (length (vec_stations m))..<length (vec_stations m) + length (p # ps)]"
      by (rule upt_conv_Cons) simp
    moreover have "length (vec_stations m) + length (p # ps) = Suc (length (vec_stations m)) + length ps"
      by simp
    ultimately have "[length (vec_stations m)..<length (vec_stations m) + length (p # ps)] =
          length (vec_stations m) # [Suc (length (vec_stations m))..<Suc (length (vec_stations m)) + length ps]"
      by (simp only:)
    then show ?thesis unfolding sch by (simp only: map_append list.map append_assoc append_Cons append_Nil)
  qed
  ultimately show ?case using a by (simp only: simp_thms)
qed

lemma wire_neighbors_shape:
  assumes "length (vec_stations m) = 4"
  shows "length (vec_stations (wire_neighbors m)) = 4"
    and "\<And>t. t < 4 \<Longrightarrow> vehicles (vec_stations (wire_neighbors m) ! t) = vehicles (vec_stations m ! t)"
    and "\<And>t. t < 4 \<Longrightarrow> set (neighbors (vec_stations (wire_neighbors m) ! t)) \<subseteq> {..<4}"
    and "vehicle_arena (wire_neighbors m) = vehicle_arena m"
    and "schedule (wire_neighbors m) = schedule m"
proof -
  from length4[OF assms] obtain a b c d where e: "vec_stations m = [a, b, c, d]" by blast
  have w: "vec_stations (wire_neighbors m) =
      [a\<lparr>neighbors := [1, 3]\<rparr>, b\<lparr>neighbors := [2, 0]\<rparr>, c\<lparr>neighbors := [3, 1]\<rparr>, d\<lparr>neighbors := [0, 2]\<rparr>]"
    by (simp add: wire_neighbors_def e)
  show "length (vec_stations (wire_neighbors m)) = 4" unfolding w by simp
  have t4: "\<And>t::nat. t < 4 \<Longrightarrow> t = 0 \<or> t = 1 \<or> t = 2 \<or> t = 3" by arith
  show "\<And>t. t < 4 \<Longrightarrow> vehicles (vec_stations (wire_neighbors m) ! t) = vehicles (vec_stations m ! t)"
    unfolding w e using t4 by fastforce
  show "\<And>t. t < 4 \<Longrightarrow> set (neighbors (vec_stations (wire_neighbors m) ! t)) \<subseteq> {..<4}"
    unfolding w using t4 by fastforce
  show "vehicle_arena (wire_neighbors m) = vehicle_arena m" "schedule (wire_neighbors m) = schedule m"
    by (simp_all add: wire_neighbors_def)
qed

lemma init_stations:
  assumes "VECModel_init width height traces = Inr m"
  shows "\<exists>m1. model_inv m1 \<and> schedule_fifo m1 \<and> length (vec_stations m1) = 4
           \<and> spawn_all m1 (last (station_positions width height)) 1 traces = Inr m"
proof -
  let ?m0 = "\<lparr>space = \<lparr>x_max = width, y_max = height\<rparr>, vec_stations = [],
                vehicle_arena = [], schedule = []\<rparr>"
  from assms obtain m1 where c: "create_stations ?m0 1 (station_positions width height) = Inr m1"
    and s: "spawn_all (wire_neighbors m1) (last (station_positions width height)) 1 traces = Inr m"
    by (auto simp: VECModel_init_def Let_def split: sum.splits)
  have l4: "length (station_positions width height) = 4" by (simp add: station_positions_def Let_def)
  from create_stations_shape[OF c] obtain new where
    a: "vehicle_arena m1 = []" and
    n: "vec_stations m1 = new" "map station_pos new = station_positions width height"
       "\<forall>s \<in> set new. vehicles s = [] \<and> neighbors s = [] \<and> range_m s = 45
                  \<and> capacity s = 10 \<and> distance_threshold s = 0.7" and
    sch: "schedule m1 = map Station [0..<length (station_positions width height)]"
    by auto
  have len: "length (vec_stations m1) = 4" using n(1,2) l4 by (metis length_map)
  note w = wire_neighbors_shape[OF len]
  have v0: "\<And>t. t < 4 \<Longrightarrow> vehicles (vec_stations (wire_neighbors m1) ! t) = []"
    using w(2) n(1,3) len by simp
  have "handles_ok (wire_neighbors m1)"
    unfolding handles_ok_def w(1) using w(3) v0 by auto
  moreover have "schedule_ok (wire_neighbors m1)"
    unfolding schedule_ok_def w(1) w(5) sch l4 by auto
  moreover have "served_consistent (wire_neighbors m1)"
    unfolding served_consistent_def w(1) using v0 by simp
  moreover have "served_distinct (wire_neighbors m1)"
    unfolding served_distinct_def w(1) using v0 by simp
  moreover have "served_cover (wire_neighbors m1)"
    unfolding served_cover_def w(4) a by simp
  moreover have "total_load (wire_neighbors m1) = int (length (vehicle_arena (wire_neighbors m1)))"
  proof -
    have "\<forall>s \<in> set (vec_stations (wire_neighbors m1)). load s = 0"
      using v0 w(1) by (auto simp: load_def in_set_conv_nth)
    then have "sum_list (map load (vec_stations (wire_neighbors m1))) = 0"
      by (rule sum_list_all_zero)
    then show ?thesis unfolding w(4) a total_load_def by simp
  qed
  ultimately have "model_inv (wire_neighbors m1)" by (simp add: model_inv_def)
  moreover have "schedule_fifo (wire_neighbors m1)"
    unfolding schedule_fifo_def w(1) w(4) w(5) a sch l4 by simp
  ultimately show ?thesis using s w(1) by blast
qed

lemma init_inv: "VECModel_init width height traces = Inr m \<Longrightarrow> model_inv m"
  using init_stations spawn_all_inv by blast

lemma spawn_vehicle_fifo:
  assumes f: "schedule_fifo m" and sp: "spawn_vehicle m p vehicle_id tr = Inr m'"
  shows "schedule_fifo m'"
proof -
  from spawn_vehicle_shape[OF sp] obtain s v1 where
    m': "m' = m\<lparr>vec_stations := (vec_stations m)[s := (vec_stations m ! s)
                     \<lparr>vehicles := vehicles (vec_stations m ! s) @ [length (vehicle_arena m)]\<rparr>],
                vehicle_arena := vehicle_arena m @ [v1\<lparr>station := Some s\<rparr>],
                schedule := schedule m @ [Vehicle (length (vehicle_arena m))]\<rparr>" by blast
  show ?thesis using f unfolding schedule_fifo_def m' by simp
qed

lemma spawn_all_fifo:
  "schedule_fifo m \<Longrightarrow> spawn_all m p vehicle_id trs = Inr m' \<Longrightarrow> schedule_fifo m'"
  by (induction trs arbitrary: m vehicle_id) (auto split: sum.splits dest: spawn_vehicle_fifo)

lemma init_fifo: "VECModel_init width height traces = Inr m \<Longrightarrow> schedule_fifo m"
  using init_stations spawn_all_fifo by blast

lemma spawn_all_prefix:
  "spawn_all m p vehicle_id trs = Inr m' \<Longrightarrow> j < length (vehicle_arena m) \<Longrightarrow>
     vehicle_arena m' ! j = vehicle_arena m ! j"
proof (induction trs arbitrary: m vehicle_id)
  case Nil
  then show ?case by simp
next
  case (Cons tr trs)
  from Cons.prems(1) obtain m1 where m1: "spawn_vehicle m p vehicle_id tr = Inr m1"
    "spawn_all m1 p (vehicle_id + 1) trs = Inr m'" by (auto split: sum.splits)
  from spawn_vehicle_shape[OF m1(1)] obtain s v1 where
    a: "vehicle_arena m1 = vehicle_arena m @ [v1\<lparr>station := Some s\<rparr>]" by auto
  have "j < length (vehicle_arena m1)" using Cons.prems(2) a by simp
  from Cons.IH[OF m1(2) this] show ?case using a Cons.prems(2) by (simp add: nth_append)
qed

lemma spawn_all_arena:
  "spawn_all m p vehicle_id trs = Inr m' \<Longrightarrow>
     length (vehicle_arena m') = length (vehicle_arena m) + length trs
     \<and> (\<forall>j < length (vehicle_arena m'). length (vehicle_arena m) \<le> j \<longrightarrow>
           pos (vehicle_arena m' ! j) = Some p)"
proof (induction trs arbitrary: m vehicle_id)
  case Nil
  then show ?case by simp
next
  case (Cons tr trs)
  from Cons.prems obtain m1 where m1: "spawn_vehicle m p vehicle_id tr = Inr m1"
    "spawn_all m1 p (vehicle_id + 1) trs = Inr m'" by (auto split: sum.splits)
  from spawn_vehicle_shape[OF m1(1)] obtain s v1 where v1: "pos v1 = Some p"
    and a: "vehicle_arena m1 = vehicle_arena m @ [v1\<lparr>station := Some s\<rparr>]" by auto
  note ih = Cons.IH[OF m1(2)]
  have l: "length (vehicle_arena m') = length (vehicle_arena m) + length (tr # trs)"
    using ih a by simp
  have st: "\<And>j. j < length (vehicle_arena m1) \<Longrightarrow> vehicle_arena m' ! j = vehicle_arena m1 ! j"
    using spawn_all_prefix[OF m1(2)] by simp
  show ?case
  proof (intro conjI allI impI)
    show "length (vehicle_arena m') = length (vehicle_arena m) + length (tr # trs)" by (rule l)
  next
    fix j assume j: "j < length (vehicle_arena m')" and g: "length (vehicle_arena m) \<le> j"
    show "pos (vehicle_arena m' ! j) = Some p"
    proof (cases "j = length (vehicle_arena m)")
      case True
      then have "vehicle_arena m' ! j = vehicle_arena m1 ! j" using st a by simp
      then show ?thesis using True a v1 by simp
    next
      case False
      with g have "length (vehicle_arena m1) \<le> j" using a by simp
      with ih j show ?thesis by blast
    qed
  qed
qed

lemma init_arena:
  assumes "VECModel_init width height traces = Inr m"
  shows "length (vehicle_arena m) = length traces
       \<and> (\<forall>j < length (vehicle_arena m). pos (vehicle_arena m ! j) = Some (10, height - 10))"
proof -
  let ?m0 = "\<lparr>space = \<lparr>x_max = width, y_max = height\<rparr>, vec_stations = [],
                vehicle_arena = [], schedule = []\<rparr>"
  from assms obtain m1 where c: "create_stations ?m0 1 (station_positions width height) = Inr m1"
    and s: "spawn_all (wire_neighbors m1) (last (station_positions width height)) 1 traces = Inr m"
    by (auto simp: VECModel_init_def Let_def split: sum.splits)
  have e: "vehicle_arena (wire_neighbors m1) = []"
    using create_stations_shape[OF c] by (simp add: wire_neighbors_def)
  have p: "last (station_positions width height) = (10, height - 10)"
    by (simp add: station_positions_def Let_def)
  from spawn_all_arena[OF s] show ?thesis unfolding e p by simp
qed

section \<open>Frames of the two phases of a tick\<close>

lemma schedule_step_append:
  "schedule_step m (as @ bs) =
     (case schedule_step m as of Inl e \<Rightarrow> Inl e | Inr m1 \<Rightarrow> schedule_step m1 bs)"
  by (induction as arbitrary: m) (auto split: sum.splits)

lemma attempt_handover_frame:
  assumes "attempt_handover m self v = Inr m'"
  shows "schedule m' = schedule m \<and> space m' = space m
       \<and> length (vec_stations m') = length (vec_stations m)
       \<and> length (vehicle_arena m') = length (vehicle_arena m)
       \<and> map without_station (vehicle_arena m') = map without_station (vehicle_arena m)"
proof -
  from attempt_handover_cases[OF assms] show ?thesis
  proof
    assume "m' = m" then show ?thesis by simp
  next
    assume "\<exists>nb. nb \<in> set (neighbors (vec_stations m ! self)) \<and> nb \<noteq> self
            \<and> load (vec_stations m ! nb) < capacity (vec_stations m ! nb)
            \<and> hand_over m self v nb = Inr m'"
    then obtain nb where nb: "nb \<noteq> self" "hand_over m self v nb = Inr m'" by blast
    note sh = hand_over_shape[OF nb(2) nb(1)]
    have "map without_station (vehicle_arena m') = map without_station (vehicle_arena m)"
      unfolding sh(3) by (rule map_update_same) (simp add: without_station_def)
    then show ?thesis using sh(4,5) hand_over_lengths[OF nb(2)] by simp
  qed
qed

lemma station_loop_frame:
  "station_loop m self vs = Inr m' \<Longrightarrow>
     schedule m' = schedule m \<and> space m' = space m
       \<and> length (vec_stations m') = length (vec_stations m)
       \<and> length (vehicle_arena m') = length (vehicle_arena m)
       \<and> map without_station (vehicle_arena m') = map without_station (vehicle_arena m)"
proof (induction vs arbitrary: m)
  case Nil
  then show ?case by simp
next
  case (Cons v vs)
  from Cons.prems(1) obtain ex where ex: "is_vehicle_exiting (vec_stations m ! self) (vehicle_arena m ! v) = Inr ex"
    by (auto split: sum.splits)
  show ?case
  proof (cases ex)
    case False
    with Cons.prems(1) ex have "station_loop m self vs = Inr m'" by simp
    from Cons.IH[OF this] show ?thesis .
  next
    case True
    with Cons.prems(1) ex obtain m1 where m1: "attempt_handover m self v = Inr m1"
      "station_loop m1 self vs = Inr m'" by (auto split: sum.splits)
    from attempt_handover_frame[OF m1(1)] Cons.IH[OF m1(2)] show ?thesis by simp
  qed
qed

lemma stations_phase_frame:
  "schedule_step m (map Station ss) = Inr m' \<Longrightarrow>
     schedule m' = schedule m \<and> space m' = space m
       \<and> length (vec_stations m') = length (vec_stations m)
       \<and> length (vehicle_arena m') = length (vehicle_arena m)
       \<and> map without_station (vehicle_arena m') = map without_station (vehicle_arena m)"
proof (induction ss arbitrary: m)
  case Nil
  then show ?case by simp
next
  case (Cons s ss)
  from Cons.prems obtain m1 where m1: "station_loop m s (vehicles (vec_stations m ! s)) = Inr m1"
    "schedule_step m1 (map Station ss) = Inr m'"
    by (auto simp: agent_step_def station_step_def split: sum.splits)
  from station_loop_frame[OF m1(1)] Cons.IH[OF m1(2)] show ?case by simp
qed

lemma vehicles_phase:
  "schedule_step m (map Vehicle js) = Inr m' \<Longrightarrow> distinct js \<Longrightarrow>
     \<forall>j \<in> set js. j < length (vehicle_arena m) \<Longrightarrow>
     schedule m' = schedule m \<and> space m' = space m \<and> vec_stations m' = vec_stations m
       \<and> length (vehicle_arena m') = length (vehicle_arena m)
       \<and> map station (vehicle_arena m') = map station (vehicle_arena m)
       \<and> (\<forall>j \<in> set js. vehicle_step (space m) (vehicle_arena m ! j) = Inr (vehicle_arena m' ! j))
       \<and> (\<forall>j. j \<notin> set js \<longrightarrow> vehicle_arena m' ! j = vehicle_arena m ! j)"
proof (induction js arbitrary: m)
  case Nil
  then show ?case by simp
next
  case (Cons k js)
  from Cons.prems(1) obtain v' where v': "vehicle_step (space m) (vehicle_arena m ! k) = Inr v'"
    and r: "schedule_step (m\<lparr>vehicle_arena := (vehicle_arena m)[k := v']\<rparr>) (map Vehicle js) = Inr m'"
    by (auto simp: agent_step_def split: sum.splits)
  let ?m1 = "m\<lparr>vehicle_arena := (vehicle_arena m)[k := v']\<rparr>"
  have d: "distinct js" and kn: "k \<notin> set js" using Cons.prems(2) by simp_all
  have b: "\<forall>j \<in> set js. j < length (vehicle_arena ?m1)" using Cons.prems(3) by simp
  have kl: "k < length (vehicle_arena m)" using Cons.prems(3) by simp
  note ih = Cons.IH[OF r d b]
  have st: "map station (vehicle_arena ?m1) = map station (vehicle_arena m)"
    using vehicle_step_station[OF v'] by (simp add: map_update_same)
  have k': "vehicle_arena m' ! k = v'" using ih kn kl by simp
  have "\<forall>j \<in> set (k # js). vehicle_step (space m) (vehicle_arena m ! j) = Inr (vehicle_arena m' ! j)"
  proof
    fix j assume j: "j \<in> set (k # js)"
    show "vehicle_step (space m) (vehicle_arena m ! j) = Inr (vehicle_arena m' ! j)"
    proof (cases "j = k")
      case True
      then show ?thesis using v' k' by simp
    next
      case False
      with j have "j \<in> set js" by simp
      with ih have "vehicle_step (space ?m1) (vehicle_arena ?m1 ! j) = Inr (vehicle_arena m' ! j)" by blast
      then show ?thesis using False by simp
    qed
  qed
  moreover have "\<forall>j. j \<notin> set (k # js) \<longrightarrow> vehicle_arena m' ! j = vehicle_arena m ! j"
    using ih by auto
  ultimately show ?case using ih st by simp
qed

lemma model_step_frame:
  assumes f: "schedule_fifo m" and s: "model_step m = Inr m'"
  shows "schedule_fifo m'"
proof -
  let ?ss = "map Station [0..<length (vec_stations m)]"
  let ?vs = "map Vehicle [0..<length (vehicle_arena m)]"
  from s f obtain m1 where m1: "schedule_step m ?ss = Inr m1" "schedule_step m1 ?vs = Inr m'"
    by (auto simp: model_step_def schedule_fifo_def schedule_step_append split: sum.splits)
  note a = stations_phase_frame[OF m1(1)]
  have "\<forall>j \<in> set [0..<length (vehicle_arena m)]. j < length (vehicle_arena m1)" using a by simp
  from vehicles_phase[OF m1(2) distinct_upt this] a f show ?thesis
    by (simp add: schedule_fifo_def)
qed

lemma run_ticks_fifo: "schedule_fifo m \<Longrightarrow> run_ticks n m = Inr m' \<Longrightarrow> schedule_fifo m'"
  by (induction n arbitrary: m) (auto split: sum.splits dest: model_step_frame)

lemma model_step_lengths:
  assumes f: "schedule_fifo m" and s: "model_step m = Inr m'"
  shows "length (vehicle_arena m') = length (vehicle_arena m)
       \<and> length (vec_stations m') = length (vec_stations m)"
proof -
  let ?ss = "map Station [0..<length (vec_stations m)]"
  let ?vs = "map Vehicle [0..<length (vehicle_arena m)]"
  from s f obtain m1 where m1: "schedule_step m ?ss = Inr m1" "schedule_step m1 ?vs = Inr m'"
    by (auto simp: model_step_def schedule_fifo_def schedule_step_append split: sum.splits)
  note a = stations_phase_frame[OF m1(1)]
  have "\<forall>j \<in> set [0..<length (vehicle_arena m)]. j < length (vehicle_arena m1)" using a by simp
  from vehicles_phase[OF m1(2) distinct_upt this] a show ?thesis by simp
qed

lemma run_ticks_lengths:
  "schedule_fifo m \<Longrightarrow> run_ticks n m = Inr m' \<Longrightarrow>
     length (vehicle_arena m') = length (vehicle_arena m)
       \<and> length (vec_stations m') = length (vec_stations m)"
proof (induction n arbitrary: m)
  case 0
  then show ?case by simp
next
  case (Suc n)
  from Suc.prems(2) obtain m1 where m1: "model_step m = Inr m1" "run_ticks n m1 = Inr m'"
    by (auto split: sum.splits)
  from model_step_lengths[OF Suc.prems(1) m1(1)] Suc.IH[OF model_step_frame[OF Suc.prems(1) m1(1)] m1(2)]
  show ?case by simp
qed

section \<open>Loads against capacities\<close>

lemma attempt_handover_load:
  assumes a: "attempt_handover m self v = Inr m'" and t: "t < length (vec_stations m)"
  shows "capacity (vec_stations m' ! t) = capacity (vec_stations m ! t)
       \<and> (load (vec_stations m' ! t) \<le> load (vec_stations m ! t)
          \<or> (load (vec_stations m ! t) < capacity (vec_stations m ! t)
              \<and> load (vec_stations m' ! t) = load (vec_stations m ! t) + 1))"
proof -
  from attempt_handover_cases[OF a] show ?thesis
  proof
    assume "m' = m" then show ?thesis by simp
  next
    assume "\<exists>nb. nb \<in> set (neighbors (vec_stations m ! self)) \<and> nb \<noteq> self
            \<and> load (vec_stations m ! nb) < capacity (vec_stations m ! nb)
            \<and> hand_over m self v nb = Inr m'"
    then obtain nb where nb: "nb \<noteq> self" "load (vec_stations m ! nb) < capacity (vec_stations m ! nb)"
      "hand_over m self v nb = Inr m'" by blast
    note veh = hand_over_vehicles(1)[OF nb(3) nb(1) t] and cap = hand_over_vehicles(3)[OF nb(3) nb(1) t]
    have "length (remove1 v (vehicles (vec_stations m ! self))) \<le> length (vehicles (vec_stations m ! self))"
      by (simp add: length_remove1)
    then show ?thesis using nb(2) cap unfolding load_def veh by auto
  qed
qed

lemma attempt_handover_bound:
  assumes a: "attempt_handover m self v = Inr m'" and t: "t < length (vec_stations m)"
  shows "length (vec_stations m') = length (vec_stations m)
       \<and> capacity (vec_stations m' ! t) = capacity (vec_stations m ! t)
       \<and> load (vec_stations m' ! t) \<le> max (load (vec_stations m ! t)) (capacity (vec_stations m ! t))"
proof -
  have "length (vec_stations m') = length (vec_stations m)"
    using attempt_handover_cases[OF a] hand_over_lengths(1) by auto
  then show ?thesis using attempt_handover_load[OF a t] by linarith
qed

lemma station_loop_bound:
  "station_loop m self vs = Inr m' \<Longrightarrow> t < length (vec_stations m) \<Longrightarrow>
     length (vec_stations m') = length (vec_stations m)
       \<and> capacity (vec_stations m' ! t) = capacity (vec_stations m ! t)
       \<and> load (vec_stations m' ! t) \<le> max (load (vec_stations m ! t)) (capacity (vec_stations m ! t))"
proof (induction vs arbitrary: m)
  case Nil
  then show ?case by simp
next
  case (Cons v vs)
  from Cons.prems(1) obtain ex where ex: "is_vehicle_exiting (vec_stations m ! self) (vehicle_arena m ! v) = Inr ex"
    by (auto split: sum.splits)
  show ?case
  proof (cases ex)
    case False
    with Cons.prems(1) ex have "station_loop m self vs = Inr m'" by simp
    from Cons.IH[OF this Cons.prems(2)] show ?thesis .
  next
    case True
    with Cons.prems(1) ex obtain m1 where m1: "attempt_handover m self v = Inr m1"
      "station_loop m1 self vs = Inr m'" by (auto split: sum.splits)
    note b1 = attempt_handover_bound[OF m1(1) Cons.prems(2)]
    have "t < length (vec_stations m1)" using b1 Cons.prems(2) by simp
    note b2 = Cons.IH[OF m1(2) this]
    show ?thesis using b1 b2 by (rule bound_compose)
  qed
qed

lemma agent_step_bound:
  assumes "agent_step m a = Inr m'" and t: "t < length (vec_stations m)"
  shows "length (vec_stations m') = length (vec_stations m)
       \<and> capacity (vec_stations m' ! t) = capacity (vec_stations m ! t)
       \<and> load (vec_stations m' ! t) \<le> max (load (vec_stations m ! t)) (capacity (vec_stations m ! t))"
proof (cases a)
  case (Station i)
  with assms(1) have "station_loop m i (vehicles (vec_stations m ! i)) = Inr m'"
    by (simp add: agent_step_def station_step_def)
  from station_loop_bound[OF this t] show ?thesis .
next
  case (Vehicle j)
  with assms(1) have "vec_stations m' = vec_stations m"
    by (auto simp: agent_step_def split: sum.splits)
  then show ?thesis by simp
qed

lemma schedule_step_bound:
  "schedule_step m as = Inr m' \<Longrightarrow> t < length (vec_stations m) \<Longrightarrow>
     length (vec_stations m') = length (vec_stations m)
       \<and> capacity (vec_stations m' ! t) = capacity (vec_stations m ! t)
       \<and> load (vec_stations m' ! t) \<le> max (load (vec_stations m ! t)) (capacity (vec_stations m ! t))"
proof (induction as arbitrary: m)
  case Nil
  then show ?case by simp
next
  case (Cons a as)
  from Cons.prems(1) obtain m1 where m1: "agent_step m a = Inr m1" "schedule_step m1 as = Inr m'"
    by (auto split: sum.splits)
  note b1 = agent_step_bound[OF m1(1) Cons.prems(2)]
  have "t < length (vec_stations m1)" using b1 Cons.prems(2) by simp
  note b2 = Cons.IH[OF m1(2) this]
  show ?case using b1 b2 by (rule bound_compose)
qed

lemma run_ticks_bound:
  "run_ticks n m = Inr m' \<Longrightarrow> t < length (vec_stations m) \<Longrightarrow>
     length (vec_stations m') = length (vec_stations m)
       \<and> capacity (vec_stations m' ! t) = capacity (vec_stations m ! t)
       \<and> load (vec_stations m' ! t) \<le> max (load (vec_stations m ! t)) (capacity (vec_stations m ! t))"
proof (induction n arbitrary: m)
  case 0
  then show ?case by simp
next
  case (Suc n)
  from Suc.prems(1) obtain m1 where m1: "schedule_step m (schedule m) = Inr m1" "run_ticks n m1 = Inr m'"
    by (auto simp: model_step_def split: sum.splits)
  note b1 = schedule_step_bound[OF m1(1) Suc.prems(2)]
  have "t < length (vec_stations m1)" using b1 Suc.prems(2) by simp
  note b2 = Suc.IH[OF m1(2) this]
  show ?case using b1 b2 by (rule bound_compose)
qed

section \<open>The \<^verbatim>\<open>active\<close> flag and the station step\<close>










section \<open>Runs on the concrete ring\<close>

lemma init_late_run: "VECModel_init 200 200 [late_trace] =
    Inr (ring_model [] [0] [rider late_trace 0 0 False (10, 190) (Some 3)])"
  by (simp add: VECModel_init_def station_positions_def Let_def out_of_bounds_def
      VECStationAgent_init_def wire_neighbors_def ring_model_def ring_station_def
      spawn_vehicle_def VehicleAgent_init_def late_trace_def rider_def
      place_agent_def py_min_def upt4 distance_def)

lemma step_late_run: "model_step (ring_model [] [0] [rider late_trace 0 0 False (10, 190) (Some 3)]) =
    Inr (ring_model [] [0] [rider late_trace 1 0 False (10, 190) (Some 3)])"
  by (simp add: model_step_def ring_model_def agent_step_def station_step_def ring_station_def
      rider_def is_vehicle_exiting_def distance_def vehicle_step_def Let_def late_trace_def ext1)

lemma run_late_run: "run_ticks (Suc 0) (ring_model [] [0] [rider late_trace 0 0 False (10, 190) (Some 3)]) =
    Inr (ring_model [] [0] [rider late_trace 1 0 False (10, 190) (Some 3)])"
  by (simp add: step_late_run)

lemma spawn_two: "spawn_vehicle (ring_model [] [] []) (10, 190) 1 two_trace =
    Inr (ring_model [] [0] [rider two_trace 0 0 True (10, 190) (Some 3)])"
  by (simp add: spawn_vehicle_def VehicleAgent_init_def do_step_def iloc_def two_trace_def Let_def
      place_agent_def out_of_bounds_def ring_model_def ring_station_def rider_def py_min_def upt4 distance_def)




lemma cands_far: "sort_key fst (candidates (ring_model [] [0] [rider two_trace 4 1 False (150, 190) (Some 3)]) 3 (150, 190)) =
    [(sqrt 1600 / 45, 2), (sqrt 52000 / 45, 0)]"
  by (simp add: candidates_def ring_model_def ring_station_def distance_def sqrt_le_iff)

lemma scan_far: "scan (ring_model [] [0] [rider two_trace 4 1 False (150, 190) (Some 3)]) (150, 190) 0
    [(sqrt 1600 / 45, 2), (sqrt 52000 / 45, 0)] = Some 2"
  by (simp add: ring_model_def ring_station_def load_def imt_iff r0)

lemma hand_over_far: "hand_over (ring_model [] [0] [rider two_trace 4 1 False (150, 190) (Some 3)]) 3 0 2 =
    Inr (ring_model [0] [] [rider two_trace 4 1 False (150, 190) (Some 2)])"
  by (simp add: ring_model_def rider_def ring_station_def hand_over_def py_remove_def)

lemma attempt_far: "attempt_handover (ring_model [] [0] [rider two_trace 4 1 False (150, 190) (Some 3)]) 3 0 =
    Inr (ring_model [0] [] [rider two_trace 4 1 False (150, 190) (Some 2)])"
proof -
  let ?M = "ring_model [] [0] [rider two_trace 4 1 False (150, 190) (Some 3)]"
  have p: "pos (vehicle_arena ?M ! 0) = Some (150, 190)"
    and a: "angle (vehicle_arena ?M ! 0) = 0"
    by (simp_all add: ring_model_def rider_def)
  show ?thesis unfolding attempt_handover_Some[OF p] a cands_far scan_far using hand_over_far by simp
qed


lemma ranges_far: "ranges_ok (ring_model vs2 vs3 arena) 3"
  by (simp add: ranges_ok_def ring_model_def ring_station_def)



section \<open>A run of eleven vehicles\<close>

lemma upt11: "[0..<11] = [0, 1, 2, 3, 4, 5, 6, 7, 8, 9, 10]"
  by (simp add: upt_rec)





lemma crowd_init: "VECModel_init 200 200 crowd_traces =
   Inr (ring_model [] [0, 1, 2, 3, 4, 5, 6, 7, 8, 9, 10]
          (fleet (car 1 back_trace 0 0 True (10, 190) 0 3)
                 (\<lambda>k. car k two_trace 0 0 True (10, 190) 0 3)
                 (car 11 slow_trace 0 0 True (10, 190) 0 3)))"
  by (simp add: VECModel_init_def station_positions_def Let_def out_of_bounds_def
      VECStationAgent_init_def wire_neighbors_def ring_model_def ring_station_def
      spawn_vehicle_def VehicleAgent_init_def do_step_def iloc_def crowd_traces_def
      back_trace_def two_trace_def slow_trace_def car_def fleet_def
      place_agent_def py_min_def upt4 upt11 distance_def)










section \<open>The claims\<close>

text \<open>
  C1. After the constructor and after every tick, every vehicle in the served list of a
  station \<open>s\<close> has \<open>s\<close> as its station reference. A call of \<^verbatim>\<open>attempt_handover\<close>
  that returns leaves the model as it was, or has removed the vehicle from the source
  station's list, appended it to the list of a neighbor other than the source and set
  the vehicle's reference to that neighbor: all three, and nothing else.
\<close>

theorem served_sets_consistent:
  "(VECModel_init width height traces = Inr m0 \<longrightarrow> run_ticks n m0 = Inr m \<longrightarrow>
      (\<forall>s < length (vec_stations m). \<forall>v \<in> set (vehicles (vec_stations m ! s)).
          station (vehicle_arena m ! v) = Some s))
   \<and> (ranges_ok m1 self \<longrightarrow> attempt_handover m1 self vehicle = Inr m2 \<longrightarrow>
        m2 = m1
        \<or> (\<exists>nb. nb \<noteq> self \<and> vehicle \<in> set (vehicles (vec_stations m1 ! self))
              \<and> vec_stations m2 =
                   (vec_stations m1)[self := (vec_stations m1 ! self)
                                       \<lparr>vehicles := remove1 vehicle (vehicles (vec_stations m1 ! self))\<rparr>,
                                     nb := (vec_stations m1 ! nb)
                                       \<lparr>vehicles := vehicles (vec_stations m1 ! nb) @ [vehicle]\<rparr>]
              \<and> vehicle_arena m2 =
                   (vehicle_arena m1)[vehicle := (vehicle_arena m1 ! vehicle)\<lparr>station := Some nb\<rparr>]
              \<and> schedule m2 = schedule m1 \<and> space m2 = space m1))"
proof (intro conjI impI)
  assume "VECModel_init width height traces = Inr m0" and "run_ticks n m0 = Inr m"
  then have "model_inv m" using init_inv run_ticks_inv by blast
  then show "\<forall>s < length (vec_stations m). \<forall>v \<in> set (vehicles (vec_stations m ! s)).
          station (vehicle_arena m ! v) = Some s"
    by (simp add: model_inv_def served_consistent_def)
next
  assume a: "attempt_handover m1 self vehicle = Inr m2"
  from attempt_handover_cases[OF a]
  show "m2 = m1
        \<or> (\<exists>nb. nb \<noteq> self \<and> vehicle \<in> set (vehicles (vec_stations m1 ! self))
              \<and> vec_stations m2 =
                   (vec_stations m1)[self := (vec_stations m1 ! self)
                                       \<lparr>vehicles := remove1 vehicle (vehicles (vec_stations m1 ! self))\<rparr>,
                                     nb := (vec_stations m1 ! nb)
                                       \<lparr>vehicles := vehicles (vec_stations m1 ! nb) @ [vehicle]\<rparr>]
              \<and> vehicle_arena m2 =
                   (vehicle_arena m1)[vehicle := (vehicle_arena m1 ! vehicle)\<lparr>station := Some nb\<rparr>]
              \<and> schedule m2 = schedule m1 \<and> space m2 = space m1)"
  proof
    assume "m2 = m1" then show ?thesis by simp
  next
    assume "\<exists>nb. nb \<in> set (neighbors (vec_stations m1 ! self)) \<and> nb \<noteq> self
            \<and> load (vec_stations m1 ! nb) < capacity (vec_stations m1 ! nb)
            \<and> hand_over m1 self vehicle nb = Inr m2"
    then obtain nb where nb: "nb \<noteq> self" "hand_over m1 self vehicle nb = Inr m2" by blast
    from hand_over_shape[OF nb(2) nb(1)] nb(1) show ?thesis by blast
  qed
qed

theorem served_sets_consistent_witness:
  "VECModel_init 200 200 [late_trace] = Inr (ring_model [] [0] [rider late_trace 0 0 False (10, 190) (Some 3)])
   \<and> run_ticks (Suc 0) (ring_model [] [0] [rider late_trace 0 0 False (10, 190) (Some 3)])
        = Inr (ring_model [] [0] [rider late_trace 1 0 False (10, 190) (Some 3)])
   \<and> station (vehicle_arena (ring_model [] [0] [rider late_trace 1 0 False (10, 190) (Some 3)]) ! 0) = Some 3
   \<and> ranges_ok (ring_model [] [0] [rider two_trace 4 1 False (150, 190) (Some 3)]) 3
   \<and> attempt_handover (ring_model [] [0] [rider two_trace 4 1 False (150, 190) (Some 3)]) 3 0
        = Inr (ring_model [0] [] [rider two_trace 4 1 False (150, 190) (Some 2)])
   \<and> 0 \<in> set (vehicles (vec_stations (ring_model [] [0] [rider two_trace 4 1 False (150, 190) (Some 3)]) ! 3))"
proof -
  have a: "station (vehicle_arena (ring_model [] [0] [rider late_trace 1 0 False (10, 190) (Some 3)]) ! 0) = Some 3"
    by (rule served_sets_consistent[THEN conjunct1, rule_format, OF init_late_run run_late_run])
       (simp_all add: ring_model_def ring_station_def)
  have ne: "ring_model [0] [] [rider two_trace 4 1 False (150, 190) (Some 2)]
        \<noteq> ring_model [] [0] [rider two_trace 4 1 False (150, 190) (Some 3)]"
    by (simp add: ring_model_def ring_station_def)
  have b: "0 \<in> set (vehicles (vec_stations (ring_model [] [0] [rider two_trace 4 1 False (150, 190) (Some 3)]) ! 3))"
    using served_sets_consistent[THEN conjunct2, rule_format, OF ranges_far attempt_far] ne by blast
  show ?thesis using init_late_run run_late_run a ranges_far attempt_far b by (intro conjI)
qed




text \<open>
  C4, as the code has it. After the constructor and after every tick, there is one
  vehicle for every trace, the loads of all stations add up to the number of vehicles,
  active or not, and every vehicle is in the served list of exactly one station. The counterexample is a vehicle whose trace starts
  at timestep 1: after the first tick it is inactive and still counted.
\<close>

theorem load_counts_all_vehicles:
  assumes "VECModel_init width height traces = Inr m0" and "run_ticks n m0 = Inr m"
  shows "length (vehicle_arena m) = length traces
    \<and> total_load m = int (length traces)
    \<and> (\<forall>v < length (vehicle_arena m).
          \<exists>!s. s < length (vec_stations m) \<and> v \<in> set (vehicles (vec_stations m ! s)))"
proof -
  from assms have inv: "model_inv m" using init_inv run_ticks_inv by blast
  have len: "length (vehicle_arena m) = length traces"
    using init_arena[OF assms(1)] run_ticks_lengths[OF init_fifo[OF assms(1)] assms(2)] by simp
  from inv have sc: "served_consistent m" and cv: "served_cover m" by (simp_all add: model_inv_def)
  have "\<forall>v < length (vehicle_arena m).
          \<exists>!s. s < length (vec_stations m) \<and> v \<in> set (vehicles (vec_stations m ! s))"
  proof (intro allI impI)
    fix v assume v: "v < length (vehicle_arena m)"
    from cv v obtain s where s: "s < length (vec_stations m)" "v \<in> set (vehicles (vec_stations m ! s))"
      by (auto simp: served_cover_def)
    show "\<exists>!s. s < length (vec_stations m) \<and> v \<in> set (vehicles (vec_stations m ! s))"
    proof (rule ex1I[of _ s])
      show "s < length (vec_stations m) \<and> v \<in> set (vehicles (vec_stations m ! s))" using s by simp
    next
      fix t assume t: "t < length (vec_stations m) \<and> v \<in> set (vehicles (vec_stations m ! t))"
      then have "station (vehicle_arena m ! v) = Some t" using sc by (auto simp: served_consistent_def)
      moreover have "station (vehicle_arena m ! v) = Some s" using sc s by (auto simp: served_consistent_def)
      ultimately show "t = s" by simp
    qed
  qed
  then show ?thesis using inv len by (simp add: model_inv_def)
qed

theorem load_counts_all_vehicles_witness:
  "VECModel_init 200 200 [late_trace] = Inr (ring_model [] [0] [rider late_trace 0 0 False (10, 190) (Some 3)])
   \<and> run_ticks (Suc 0) (ring_model [] [0] [rider late_trace 0 0 False (10, 190) (Some 3)])
        = Inr (ring_model [] [0] [rider late_trace 1 0 False (10, 190) (Some 3)])
   \<and> total_load (ring_model [] [0] [rider late_trace 1 0 False (10, 190) (Some 3)]) = 1"
proof -
  have "total_load (ring_model [] [0] [rider late_trace 1 0 False (10, 190) (Some 3)]) = 1"
    using load_counts_all_vehicles[OF init_late_run run_late_run] by simp
  then show ?thesis using init_late_run run_late_run by (intro conjI)
qed

theorem load_counts_active_counterexample:
  "VECModel_init 200 200 [late_trace] = Inr (ring_model [] [0] [rider late_trace 0 0 False (10, 190) (Some 3)])
   \<and> model_step (ring_model [] [0] [rider late_trace 0 0 False (10, 190) (Some 3)])
        = Inr (ring_model [] [0] [rider late_trace 1 0 False (10, 190) (Some 3)])
   \<and> total_load (ring_model [] [0] [rider late_trace 1 0 False (10, 190) (Some 3)]) = 1
   \<and> active_count (ring_model [] [0] [rider late_trace 1 0 False (10, 190) (Some 3)]) = 0"
proof -
  have "total_load (ring_model [] [0] [rider late_trace 1 0 False (10, 190) (Some 3)]) = 1"
    by (simp add: total_load_def ring_model_def ring_station_def load_def)
  moreover have "active_count (ring_model [] [0] [rider late_trace 1 0 False (10, 190) (Some 3)]) = 0"
    by (simp add: active_count_def ring_model_def rider_def)
  ultimately show ?thesis using init_late_run step_late_run by (intro conjI)
qed







text \<open>
  C7. \<^verbatim>\<open>spawn_vehicle\<close> appends one vehicle, placed at the position \<open>p\<close> that the
  space gave it, and its station is the first station of \<^verbatim>\<open>vec_stations\<close> at minimum
  Euclidean distance from \<open>p\<close>: no station is nearer and every earlier station is
  strictly farther.
\<close>

theorem spawn_vehicle_nearest_station:
  assumes "spawn_vehicle m p vehicle_id tr = Inr m'"
  shows "\<exists>st. st < length (vec_stations m)
           \<and> vehicle_arena m' = vehicle_arena m @ [last (vehicle_arena m')]
           \<and> station (last (vehicle_arena m')) = Some st
           \<and> pos (last (vehicle_arena m')) = Some p
           \<and> map station_pos (vec_stations m') = map station_pos (vec_stations m)
           \<and> (\<forall>j < length (vec_stations m).
                 distance (station_pos (vec_stations m ! st)) p
                   \<le> distance (station_pos (vec_stations m ! j)) p)
           \<and> (\<forall>j < st.
                 distance (station_pos (vec_stations m ! st)) p
                   < distance (station_pos (vec_stations m ! j)) p)"
proof -
  from assms obtain v0 v1 vp st where
    v0: "VehicleAgent_init (space m) vehicle_id tr = Inr v0" and
    v1: "place_agent (space m) v0 p = Inr v1" and
    vp: "pos v1 = Some vp" and
    st: "py_min (\<lambda>x. distance (station_pos (vec_stations m ! x)) vp) [0..<length (vec_stations m)] = Inr st" and
    m': "m' = m\<lparr>vec_stations := (vec_stations m)[st := (vec_stations m ! st)
                     \<lparr>vehicles := vehicles (vec_stations m ! st) @ [length (vehicle_arena m)]\<rparr>],
                vehicle_arena := vehicle_arena m @ [v1\<lparr>station := Some st\<rparr>],
                schedule := schedule m @ [Vehicle (length (vehicle_arena m))]\<rparr>"
    by (auto simp: spawn_vehicle_def Let_def split: sum.splits option.splits)
  have "vp = p" using v1 vp by (auto simp: place_agent_def split: if_splits)
  note mn = py_min_upt[OF st, unfolded \<open>vp = p\<close>]
  have "map station_pos (vec_stations m') = map station_pos (vec_stations m)"
    using m' by (simp add: map_update_same)
  then show ?thesis using mn m' vp \<open>vp = p\<close> by (intro exI[of _ st]) simp
qed

theorem spawn_vehicle_nearest_station_witness:
  "spawn_vehicle (ring_model [] [] []) (10, 190) 1 two_trace
      = Inr (ring_model [] [0] [rider two_trace 0 0 True (10, 190) (Some 3)])
   \<and> station (last (vehicle_arena (ring_model [] [0] [rider two_trace 0 0 True (10, 190) (Some 3)]))) = Some 3
   \<and> distance (station_pos (vec_stations (ring_model [] [] []) ! 3)) (10, 190)
        \<le> distance (station_pos (vec_stations (ring_model [] [] []) ! 0)) (10, 190)
   \<and> distance (station_pos (vec_stations (ring_model [] [] []) ! 3)) (10, 190)
        < distance (station_pos (vec_stations (ring_model [] [] []) ! 2)) (10, 190)"
proof -
  have s: "station (last (vehicle_arena (ring_model [] [0] [rider two_trace 0 0 True (10, 190) (Some 3)]))) = Some 3"
    by (simp add: ring_model_def rider_def)
  have l: "length (vec_stations (ring_model [] [] [])) = 4" by (simp add: ring_model_def)
  from spawn_vehicle_nearest_station[OF spawn_two] s
  have a: "\<forall>j < length (vec_stations (ring_model [] [] [])).
         distance (station_pos (vec_stations (ring_model [] [] []) ! 3)) (10, 190)
           \<le> distance (station_pos (vec_stations (ring_model [] [] []) ! j)) (10, 190)"
    and b: "\<forall>j < 3.
         distance (station_pos (vec_stations (ring_model [] [] []) ! 3)) (10, 190)
           < distance (station_pos (vec_stations (ring_model [] [] []) ! j)) (10, 190)"
    by auto
  have a0: "distance (station_pos (vec_stations (ring_model [] [] []) ! 3)) (10, 190)
        \<le> distance (station_pos (vec_stations (ring_model [] [] []) ! 0)) (10, 190)"
    using a l by simp
  have b2: "distance (station_pos (vec_stations (ring_model [] [] []) ! 3)) (10, 190)
        < distance (station_pos (vec_stations (ring_model [] [] []) ! 2)) (10, 190)"
    using b by simp
  show ?thesis using spawn_two s a0 b2 by (intro conjI)
qed

text \<open>
  C8. In every model reached from the constructor by ticks, the schedule is the stations
  in creation order followed by the vehicles in creation order, so a tick is the steps
  of all stations followed by the steps of all vehicles, each agent once. The steps of
  stations change nothing of a vehicle but its station reference, so every station
  reads the positions of the end of the previous tick; the steps of the vehicles leave
  the stations and the station references alone and step every vehicle from its state
  after the station phase.
\<close>

theorem tick_order:
  assumes i: "VECModel_init width height traces = Inr m0" and r: "run_ticks n m0 = Inr m"
  shows "schedule m = map Station [0..<length (vec_stations m)]
                      @ map Vehicle [0..<length (vehicle_arena m)]
    \<and> model_step m =
        (case schedule_step m (map Station [0..<length (vec_stations m)]) of
           Inl e \<Rightarrow> Inl e
         | Inr m1 \<Rightarrow> schedule_step m1 (map Vehicle [0..<length (vehicle_arena m)]))
    \<and> (\<forall>ss m1. schedule_step m (map Station ss) = Inr m1 \<longrightarrow>
          map without_station (vehicle_arena m1) = map without_station (vehicle_arena m))
    \<and> (\<forall>m1 m2. schedule_step m (map Station [0..<length (vec_stations m)]) = Inr m1 \<longrightarrow>
          schedule_step m1 (map Vehicle [0..<length (vehicle_arena m)]) = Inr m2 \<longrightarrow>
            vec_stations m2 = vec_stations m1
          \<and> map station (vehicle_arena m2) = map station (vehicle_arena m1)
          \<and> (\<forall>j < length (vehicle_arena m).
                vehicle_step (space m) (vehicle_arena m1 ! j) = Inr (vehicle_arena m2 ! j)))"
proof -
  have f: "schedule_fifo m" using init_fifo[OF i] run_ticks_fifo r by blast
  then have 1: "schedule m = map Station [0..<length (vec_stations m)]
                      @ map Vehicle [0..<length (vehicle_arena m)]" by (simp add: schedule_fifo_def)
  have 2: "model_step m =
        (case schedule_step m (map Station [0..<length (vec_stations m)]) of
           Inl e \<Rightarrow> Inl e
         | Inr m1 \<Rightarrow> schedule_step m1 (map Vehicle [0..<length (vehicle_arena m)]))"
    unfolding model_step_def by (subst 1) (rule schedule_step_append)
  have 3: "\<forall>ss m1. schedule_step m (map Station ss) = Inr m1 \<longrightarrow>
          map without_station (vehicle_arena m1) = map without_station (vehicle_arena m)"
    using stations_phase_frame by blast
  have 4: "\<forall>m1 m2. schedule_step m (map Station [0..<length (vec_stations m)]) = Inr m1 \<longrightarrow>
          schedule_step m1 (map Vehicle [0..<length (vehicle_arena m)]) = Inr m2 \<longrightarrow>
            vec_stations m2 = vec_stations m1
          \<and> map station (vehicle_arena m2) = map station (vehicle_arena m1)
          \<and> (\<forall>j < length (vehicle_arena m).
                vehicle_step (space m) (vehicle_arena m1 ! j) = Inr (vehicle_arena m2 ! j))"
  proof (intro allI impI)
    fix m1 m2
    assume a: "schedule_step m (map Station [0..<length (vec_stations m)]) = Inr m1"
      and b: "schedule_step m1 (map Vehicle [0..<length (vehicle_arena m)]) = Inr m2"
    note fr = stations_phase_frame[OF a]
    have "\<forall>j \<in> set [0..<length (vehicle_arena m)]. j < length (vehicle_arena m1)" using fr by simp
    from vehicles_phase[OF b distinct_upt this] fr
    show "vec_stations m2 = vec_stations m1
          \<and> map station (vehicle_arena m2) = map station (vehicle_arena m1)
          \<and> (\<forall>j < length (vehicle_arena m).
                vehicle_step (space m) (vehicle_arena m1 ! j) = Inr (vehicle_arena m2 ! j))"
      by simp
  qed
  from 1 2 3 4 show ?thesis by (simp only: simp_thms)
qed

theorem tick_order_witness:
  "VECModel_init 200 200 [late_trace] = Inr (ring_model [] [0] [rider late_trace 0 0 False (10, 190) (Some 3)])
   \<and> run_ticks (Suc 0) (ring_model [] [0] [rider late_trace 0 0 False (10, 190) (Some 3)])
        = Inr (ring_model [] [0] [rider late_trace 1 0 False (10, 190) (Some 3)])
   \<and> schedule (ring_model [] [0] [rider late_trace 1 0 False (10, 190) (Some 3)])
        = [Station 0, Station 1, Station 2, Station 3, Vehicle 0]"
proof -
  have "schedule (ring_model [] [0] [rider late_trace 1 0 False (10, 190) (Some 3)])
        = [Station 0, Station 1, Station 2, Station 3, Vehicle 0]"
    using tick_order[OF init_late_run run_late_run, THEN conjunct1]
    by (simp add: ring_model_def upt4)
  then show ?thesis using init_late_run run_late_run by (intro conjI)
qed

text \<open>
  The directional primitive in exact arithmetic: \<^verbatim>\<open>is_moving_towards\<close> holds exactly
  when the dot product of the heading's unit vector and the vector to the target is
  positive; it holds for the heading 45 towards \<open>(1, 1)\<close>, fails for 225 and 136,
  and fails for a heading at a right angle to the direction of the target. The source
  computes the cosine and sine in floating point, where the dot product of a
  right-angle case is a rounding error of either sign; that is outside this embedding.
\<close>

theorem is_moving_towards_exact:
  "(is_moving_towards (px, py) h (tx, ty) \<longleftrightarrow>
      cos (radians h) * (tx - px) + sin (radians h) * (ty - py) > 0)
   \<and> is_moving_towards (0, 0) 45 (1, 1)
   \<and> \<not> is_moving_towards (0, 0) 225 (1, 1)
   \<and> \<not> is_moving_towards (0, 0) 136 (1, 1)
   \<and> \<not> is_moving_towards (px, py) (phi + 90) (px + r * cos (radians phi), py + r * sin (radians phi))
   \<and> \<not> is_moving_towards (px, py) (phi - 90) (px + r * cos (radians phi), py + r * sin (radians phi))"
proof -
  have a: "is_moving_towards (0, 0) 45 (1, 1)"
    by (simp add: imt_iff r45 cos_45 sin_45)
  have b: "\<not> is_moving_towards (0, 0) 225 (1, 1)"
  proof -
    have r: "radians 225 = pi / 4 + pi" by (simp add: radians_def)
    have c: "cos (radians 225) = - cos (pi / 4)" unfolding r by (rule cos_periodic_pi)
    have s: "sin (radians 225) = - sin (pi / 4)" unfolding r by (rule sin_periodic_pi)
    show ?thesis unfolding imt_iff c s by (simp add: cos_45 sin_45)
  qed
  have c: "\<not> is_moving_towards (0, 0) 136 (1, 1)"
  proof -
    have r: "radians 136 + pi / 4 = pi / 180 + pi" by (simp add: radians_def)
    have "cos (radians 136) + sin (radians 136) = sqrt 2 * sin (radians 136 + pi / 4)"
      by (rule sum_cs)
    also have "\<dots> = sqrt 2 * sin (pi / 180 + pi)" unfolding r ..
    also have "\<dots> = sqrt 2 * (- sin (pi / 180))" by (simp only: sin_periodic_pi)
    finally have e: "cos (radians 136) + sin (radians 136) = - (sqrt 2 * sin (pi / 180))" by simp
    have "0 < sin (pi / 180)" by (rule sin_gt_zero) (simp_all)
    then have "0 < sqrt 2 * sin (pi / 180)" by simp
    with e show ?thesis by (simp add: imt_iff)
  qed
  have d: "\<not> is_moving_towards (px, py) (phi + 90) (px + r * cos (radians phi), py + r * sin (radians phi))"
    by (simp add: imt_iff rad_add r90 cos_add sin_add algebra_simps)
  have e: "\<not> is_moving_towards (px, py) (phi - 90) (px + r * cos (radians phi), py + r * sin (radians phi))"
    by (simp add: imt_iff rad_diff r90 cos_diff sin_diff algebra_simps)
  show ?thesis using imt_iff a b c d e by (intro conjI)
qed

text \<open>
  C10. A call of \<^verbatim>\<open>attempt_handover\<close> that returns leaves the capacity of every
  station alone, and the load of a station either does not grow or grows by one from a
  value strictly below the capacity, so it ends at most at the capacity. Hence, after
  any number of ticks from the constructor, the load of a station is at most the larger
  of its capacity and its load after the constructor.
\<close>

theorem handover_never_overloads:
  "(ranges_ok m self \<longrightarrow> attempt_handover m self v = Inr m' \<longrightarrow> t < length (vec_stations m) \<longrightarrow>
       capacity (vec_stations m' ! t) = capacity (vec_stations m ! t)
     \<and> (load (vec_stations m' ! t) \<le> load (vec_stations m ! t)
        \<or> (load (vec_stations m ! t) < capacity (vec_stations m ! t)
            \<and> load (vec_stations m' ! t) = load (vec_stations m ! t) + 1
            \<and> load (vec_stations m' ! t) \<le> capacity (vec_stations m' ! t))))
   \<and> (VECModel_init width height traces = Inr m0 \<longrightarrow> run_ticks n m0 = Inr m1 \<longrightarrow>
        t0 < length (vec_stations m0) \<longrightarrow>
          capacity (vec_stations m1 ! t0) = capacity (vec_stations m0 ! t0)
        \<and> load (vec_stations m1 ! t0) \<le> max (load (vec_stations m0 ! t0)) (capacity (vec_stations m0 ! t0)))"
proof (intro conjI impI)
  assume a: "attempt_handover m self v = Inr m'" and t: "t < length (vec_stations m)"
  from attempt_handover_load[OF a t]
  show "capacity (vec_stations m' ! t) = capacity (vec_stations m ! t)" by simp
  from attempt_handover_load[OF a t]
  show "load (vec_stations m' ! t) \<le> load (vec_stations m ! t)
        \<or> (load (vec_stations m ! t) < capacity (vec_stations m ! t)
            \<and> load (vec_stations m' ! t) = load (vec_stations m ! t) + 1
            \<and> load (vec_stations m' ! t) \<le> capacity (vec_stations m' ! t))"
    by auto
next
  assume r: "run_ticks n m0 = Inr m1" and t: "t0 < length (vec_stations m0)"
  from run_ticks_bound[OF r t]
  show "capacity (vec_stations m1 ! t0) = capacity (vec_stations m0 ! t0)"
    and "load (vec_stations m1 ! t0) \<le> max (load (vec_stations m0 ! t0)) (capacity (vec_stations m0 ! t0))"
    by simp_all
qed

theorem handover_never_overloads_witness:
  "ranges_ok (ring_model [] [0] [rider two_trace 4 1 False (150, 190) (Some 3)]) 3
   \<and> attempt_handover (ring_model [] [0] [rider two_trace 4 1 False (150, 190) (Some 3)]) 3 0
        = Inr (ring_model [0] [] [rider two_trace 4 1 False (150, 190) (Some 2)])
   \<and> load (vec_stations (ring_model [] [0] [rider two_trace 4 1 False (150, 190) (Some 3)]) ! 2) = 0
   \<and> load (vec_stations (ring_model [0] [] [rider two_trace 4 1 False (150, 190) (Some 2)]) ! 2)
        \<le> capacity (vec_stations (ring_model [0] [] [rider two_trace 4 1 False (150, 190) (Some 2)]) ! 2)
   \<and> VECModel_init 200 200 [late_trace] = Inr (ring_model [] [0] [rider late_trace 0 0 False (10, 190) (Some 3)])
   \<and> run_ticks (Suc 0) (ring_model [] [0] [rider late_trace 0 0 False (10, 190) (Some 3)])
        = Inr (ring_model [] [0] [rider late_trace 1 0 False (10, 190) (Some 3)])
   \<and> load (vec_stations (ring_model [] [0] [rider late_trace 1 0 False (10, 190) (Some 3)]) ! 3) \<le> 10"
proof -
  let ?M = "ring_model [] [0] [rider two_trace 4 1 False (150, 190) (Some 3)]"
  let ?M' = "ring_model [0] [] [rider two_trace 4 1 False (150, 190) (Some 2)]"
  have l0: "load (vec_stations ?M ! 2) = 0" "load (vec_stations ?M' ! 2) = 1"
    by (simp_all add: ring_model_def ring_station_def load_def)
  have t: "2 < length (vec_stations ?M)" by (simp add: ring_model_def)
  from handover_never_overloads[THEN conjunct1, rule_format, OF ranges_far attempt_far t] l0
  have a: "load (vec_stations ?M' ! 2) \<le> capacity (vec_stations ?M' ! 2)" by auto
  have t3: "3 < length (vec_stations (ring_model [] [0] [rider late_trace 0 0 False (10, 190) (Some 3)]))"
    by (simp add: ring_model_def)
  from handover_never_overloads[THEN conjunct2, rule_format, OF init_late_run run_late_run t3]
  have b: "load (vec_stations (ring_model [] [0] [rider late_trace 1 0 False (10, 190) (Some 3)]) ! 3) \<le> 10"
    by (simp add: ring_model_def ring_station_def load_def)
  show ?thesis using ranges_far attempt_far l0(1) a init_late_run run_late_run b by (intro conjI)
qed

text \<open>
  The constructor does not look at capacities: with eleven traces the fourth station
  starts with a load of 11 against a capacity of 10.
\<close>

lemma spawn_ignores_capacity:
  "VECModel_init 200 200 crowd_traces =
     Inr (ring_model [] [0, 1, 2, 3, 4, 5, 6, 7, 8, 9, 10]
            (fleet (car 1 back_trace 0 0 True (10, 190) 0 3)
                   (\<lambda>k. car k two_trace 0 0 True (10, 190) 0 3)
                   (car 11 slow_trace 0 0 True (10, 190) 0 3)))
   \<and> load (vec_stations (ring_model [] [0, 1, 2, 3, 4, 5, 6, 7, 8, 9, 10] arena) ! 3) = 11
   \<and> capacity (vec_stations (ring_model [] [0, 1, 2, 3, 4, 5, 6, 7, 8, 9, 10] arena) ! 3) = 10"
  using crowd_init by (simp add: ring_model_def ring_station_def load_def)

end
